theory Spec2Isabelle
  imports Main "HOL-Library.Multiset" "HOL-Library.Product_Lexorder"
begin

unbundle bit_operations_syntax

section \<open>Python values and errors\<close>

text \<open>
  The simulator is one Python module, \<^verbatim>\<open>mem_sim.py\<close>. Python integers are unbounded;
  quantities that the program only ever uses as non-negative counters or list indices
  (ways, tree indices, direction bits) are natural numbers here, configuration values and
  cycle counts are integers. An exception raised by the program is a value \<open>Inl e\<close>.
\<close>

datatype py_error = IndexError | ZeroDivisionError | TypeError | RecursionError

text \<open>\<^verbatim>\<open>int.bit_length()\<close>: the number of binary digits of the absolute value.\<close>

fun bit_length_nat :: "nat \<Rightarrow> nat" where
  "bit_length_nat n = (if n = 0 then 0 else Suc (bit_length_nat (n div 2)))"

declare bit_length_nat.simps [simp del]

definition bit_length :: "int \<Rightarrow> nat" where
  "bit_length n = bit_length_nat (nat \<bar>n\<bar>)"

section \<open>PLRU\<close>

text \<open>
  \<^verbatim>\<open>class PLRU\<close>: \<^verbatim>\<open>bits = [0] * (ways - 1)\<close> and \<^verbatim>\<open>ways\<close>. The bits are only ever
  written as \<^verbatim>\<open>1 - direction\<close> with \<^verbatim>\<open>direction = (...) & 1\<close>.
\<close>

record PLRU =
  bits :: "nat list"
  ways :: int

definition PLRU_init :: "int \<Rightarrow> PLRU" where
  "PLRU_init w = \<lparr>bits = replicate (nat (w - 1)) 0, ways = w\<rparr>"

text \<open>
  The body of the \<^verbatim>\<open>for level in range(num_levels)\<close> loop of
  \<^verbatim>\<open>update_on_access\<close>, over the remaining levels; the loop state is \<^verbatim>\<open>idx\<close> and
  the bit array. \<^verbatim>\<open>self.bits[idx] = ...\<close> raises IndexError outside the array.
\<close>

fun update_loop :: "nat \<Rightarrow> nat \<Rightarrow> nat list \<Rightarrow> nat \<Rightarrow> nat list \<Rightarrow> py_error + nat list" where
  "update_loop num_levels way [] idx bs = Inr bs"
| "update_loop num_levels way (level # levels) idx bs =
     (let direction = drop_bit (num_levels - 1 - level) way AND 1 in
      if idx < length bs
      then update_loop num_levels way levels (push_bit 1 idx + 1 + direction)
             (bs[idx := 1 - direction])
      else Inl IndexError)"

definition update_on_access :: "PLRU \<Rightarrow> nat \<Rightarrow> py_error + PLRU" where
  "update_on_access p way =
     (let num_levels = bit_length (ways p) - 1 in
      case update_loop num_levels way [0..<num_levels] 0 (bits p) of
        Inl e \<Rightarrow> Inl e
      | Inr bs \<Rightarrow> Inr (p\<lparr>bits := bs\<rparr>))"

text \<open>
  The loop of \<^verbatim>\<open>get_victim\<close>; the loop state is \<^verbatim>\<open>idx\<close> and \<^verbatim>\<open>way\<close>. The loop
  does not use the value of \<^verbatim>\<open>level\<close>, only the number of iterations.
\<close>

fun victim_loop :: "nat list \<Rightarrow> nat list \<Rightarrow> nat \<Rightarrow> nat \<Rightarrow> py_error + nat" where
  "victim_loop bs [] idx way = Inr way"
| "victim_loop bs (level # levels) idx way =
     (if idx < length bs
      then (let direction = bs ! idx in
            victim_loop bs levels (push_bit 1 idx + 1 + direction) (push_bit 1 way OR direction))
      else Inl IndexError)"

definition get_victim :: "PLRU \<Rightarrow> py_error + nat" where
  "get_victim p = victim_loop (bits p) [0..<bit_length (ways p) - 1] 0 0"

section \<open>Cache lines and cache levels\<close>

text \<open>
  Python list indexing \<^verbatim>\<open>xs[i]\<close> with an integer index: a negative index counts from
  the end, an index outside \<^verbatim>\<open>-len(xs) .. len(xs) - 1\<close> raises IndexError.
\<close>

definition py_get :: "'a list \<Rightarrow> int \<Rightarrow> py_error + 'a" where
  "py_get xs i =
     (let n = int (length xs) in
      if 0 \<le> i \<and> i < n then Inr (xs ! nat i)
      else if - n \<le> i \<and> i < 0 then Inr (xs ! nat (n + i))
      else Inl IndexError)"

definition py_set :: "'a list \<Rightarrow> int \<Rightarrow> 'a \<Rightarrow> py_error + 'a list" where
  "py_set xs i v =
     (let n = int (length xs) in
      if 0 \<le> i \<and> i < n then Inr (xs[nat i := v])
      else if - n \<le> i \<and> i < 0 then Inr (xs[nat (n + i) := v])
      else Inl IndexError)"

text \<open>Floor division and remainder; both raise ZeroDivisionError on a zero divisor.\<close>

definition py_floordiv :: "int \<Rightarrow> int \<Rightarrow> py_error + int" where
  "py_floordiv a b = (if b = 0 then Inl ZeroDivisionError else Inr (a div b))"

definition py_mod :: "int \<Rightarrow> int \<Rightarrow> py_error + int" where
  "py_mod a b = (if b = 0 then Inl ZeroDivisionError else Inr (a mod b))"

text \<open>Sequencing of two steps of which the first may raise.\<close>

definition and_then :: "py_error + 'a \<Rightarrow> ('a \<Rightarrow> py_error + 'b) \<Rightarrow> py_error + 'b" where
  "and_then r f = (case r of Inl e \<Rightarrow> Inl e | Inr x \<Rightarrow> f x)"

text \<open>\<^verbatim>\<open>class CacheLine\<close>: \<^verbatim>\<open>valid = False\<close>, \<^verbatim>\<open>tag = None\<close>, \<^verbatim>\<open>dirty = False\<close>.\<close>

record CacheLine =
  valid :: bool
  tag :: "int option"
  dirty :: bool

definition CacheLine_init :: CacheLine where
  "CacheLine_init = \<lparr>valid = False, tag = None, dirty = False\<rparr>"

text \<open>
  \<^verbatim>\<open>core_id\<close> is an integer for a private cache and the string \<^verbatim>\<open>"anycore"\<close> for the
  shared one.
\<close>

datatype ident = IntId int | StrId string

text \<open>
  \<^verbatim>\<open>class CacheLevel\<close>. The objects of the program live in a store (a list of cache
  levels); \<^verbatim>\<open>lower\<close> is a reference into that store, or None. There is one
  interconnect, so \<^verbatim>\<open>memory\<close> records only whether the level is attached to it.
\<close>

record CacheLevel =
  level :: string
  owner_core_id :: ident
  line_size :: int
  assoc :: int
  num_sets :: int
  sets :: "CacheLine list list"
  plru_trees :: "PLRU list"
  memory :: bool
  lower :: "nat option"
  write_back :: bool
  write_allocate :: bool
  hits :: int
  misses :: int

text \<open>
  \<^verbatim>\<open>CacheLevel.__init__(level_name, core_id, size, line_size, assoc, memory=None,
  write_back=True, write_allocate=True)\<close>. The only way the constructor can fail is a
  division by zero in \<^verbatim>\<open>(size // line_size) // assoc\<close>; \<^verbatim>\<open>range(n)\<close> is empty for
  \<^verbatim>\<open>n \<le> 0\<close>.
\<close>

definition CacheLevel_init ::
  "string \<Rightarrow> ident \<Rightarrow> int \<Rightarrow> int \<Rightarrow> int \<Rightarrow> bool \<Rightarrow> bool \<Rightarrow> bool \<Rightarrow> py_error + CacheLevel" where
  "CacheLevel_init level_name cid sz lsize asc mem wb wa =
     and_then (py_floordiv sz lsize) (\<lambda>q.
     and_then (py_floordiv q asc) (\<lambda>nsets.
       Inr \<lparr>level = level_name, owner_core_id = cid, line_size = lsize, assoc = asc,
            num_sets = nsets,
            sets = replicate (nat nsets) (replicate (nat asc) CacheLine_init),
            plru_trees = replicate (nat nsets) (PLRU_init asc),
            memory = mem, lower = None, write_back = wb, write_allocate = wa,
            hits = 0, misses = 0\<rparr>))"

text \<open>\<^verbatim>\<open>_index\<close> and \<^verbatim>\<open>_tag\<close>.\<close>

definition index_of :: "CacheLevel \<Rightarrow> int \<Rightarrow> py_error + int" where
  "index_of c a = and_then (py_floordiv a (line_size c)) (\<lambda>q. py_mod q (num_sets c))"

definition tag_of :: "CacheLevel \<Rightarrow> int \<Rightarrow> py_error + int" where
  "tag_of c a = py_floordiv a (line_size c * num_sets c)"

section \<open>Memory requests and completion callbacks\<close>

text \<open>\<^verbatim>\<open>req_type\<close> is one of the strings \<^verbatim>\<open>'read'\<close> and \<^verbatim>\<open>'write'\<close>.\<close>

datatype req_type = Read | Write

text \<open>
  The program passes two kinds of closures as completion callbacks. The closure
  \<^verbatim>\<open>lambda addr=addr: self.dequeue_access('read', addr)\<close> of \<^verbatim>\<open>Core.tick\<close> captures
  the core and the address; the closure \<^verbatim>\<open>lower_cb\<close> of \<^verbatim>\<open>CacheLevel.read\<close> captures
  the cache level, the set index, the tag of the missing address, the victim way (and with
  it the victim line and the PLRU tree of the set) and the caller's callback. A closure is
  the value of what it captured; objects are captured by reference.
\<close>

datatype callback =
  DequeueAccess nat int
| LowerCb nat int int nat callback

text \<open>\<^verbatim>\<open>class MemoryRequest\<close>; \<^verbatim>\<open>completion_time\<close> starts at \<^verbatim>\<open>-1\<close>.\<close>

record MemoryRequest =
  core_id :: ident
  time :: int
  req_type :: req_type
  addr :: int
  callback :: "callback option"
  completion_time :: int

definition MemoryRequest_init ::
  "ident \<Rightarrow> int \<Rightarrow> req_type \<Rightarrow> int \<Rightarrow> callback option \<Rightarrow> MemoryRequest" where
  "MemoryRequest_init cid t rt a cb =
     \<lparr>core_id = cid, time = t, req_type = rt, addr = a, callback = cb, completion_time = - 1\<rparr>"

text \<open>\<^verbatim>\<open>MemoryRequest.__lt__\<close>.\<close>

definition req_lt :: "MemoryRequest \<Rightarrow> MemoryRequest \<Rightarrow> bool" where
  "req_lt self other = (time self < time other)"

text \<open>
  The queues hold tuples \<^verbatim>\<open>(t, req)\<close>. Python compares tuples by their first differing
  component: the times if they differ, otherwise the requests by \<^verbatim>\<open>__lt__\<close>; a tuple is
  not less than itself.
\<close>

definition entry_lt :: "int \<times> MemoryRequest \<Rightarrow> int \<times> MemoryRequest \<Rightarrow> bool" where
  "entry_lt x y = (fst x < fst y \<or> (fst x = fst y \<and> req_lt (snd x) (snd y)))"

section \<open>heapq\<close>

text \<open>
  The binary min-heap on a list of the standard library (\<^verbatim>\<open>heapq.py\<close>): \<^verbatim>\<open>_siftdown\<close>,
  \<^verbatim>\<open>_siftup\<close>, \<^verbatim>\<open>heappush\<close>, \<^verbatim>\<open>heappop\<close> and \<^verbatim>\<open>heapify\<close>, over the comparison
  \<open>lt\<close> of the items. Every position the functions read is inside the list.
\<close>

function siftdown_loop ::
  "('a \<Rightarrow> 'a \<Rightarrow> bool) \<Rightarrow> 'a \<Rightarrow> nat \<Rightarrow> 'a list \<Rightarrow> nat \<Rightarrow> 'a list \<times> nat" where
  "siftdown_loop lt newitem startpos heap pos =
     (if pos > startpos
      then (if lt newitem (heap ! (drop_bit 1 (pos - 1)))
            then siftdown_loop lt newitem startpos
                   (heap[pos := heap ! (drop_bit 1 (pos - 1))]) (drop_bit 1 (pos - 1))
            else (heap, pos))
      else (heap, pos))"
  by pat_completeness auto
termination
  by (relation "measure (\<lambda>(lt, newitem, startpos, heap, pos). pos)")
    (auto simp: drop_bit_eq_div)

declare siftdown_loop.simps [simp del]

definition siftdown :: "('a \<Rightarrow> 'a \<Rightarrow> bool) \<Rightarrow> 'a list \<Rightarrow> nat \<Rightarrow> nat \<Rightarrow> 'a list" where
  "siftdown lt heap startpos pos =
     (let newitem = heap ! pos in
      case siftdown_loop lt newitem startpos heap pos of
        (heap', pos') \<Rightarrow> heap'[pos' := newitem])"

definition smaller_child :: "('a \<Rightarrow> 'a \<Rightarrow> bool) \<Rightarrow> nat \<Rightarrow> 'a list \<Rightarrow> nat \<Rightarrow> nat" where
  "smaller_child lt endpos heap childpos =
     (let rightpos = childpos + 1 in
      if rightpos < endpos \<and> \<not> lt (heap ! childpos) (heap ! rightpos)
      then rightpos else childpos)"

function siftup_loop ::
  "('a \<Rightarrow> 'a \<Rightarrow> bool) \<Rightarrow> nat \<Rightarrow> 'a list \<Rightarrow> nat \<Rightarrow> 'a list \<times> nat" where
  "siftup_loop lt endpos heap pos =
     (if 2 * pos + 1 < endpos
      then siftup_loop lt endpos
             (heap[pos := heap ! smaller_child lt endpos heap (2 * pos + 1)])
             (smaller_child lt endpos heap (2 * pos + 1))
      else (heap, pos))"
  by pat_completeness auto
termination
  by (relation "measure (\<lambda>(lt, endpos, heap, pos). endpos - pos)")
    (auto simp: smaller_child_def Let_def)

declare siftup_loop.simps [simp del]

definition siftup :: "('a \<Rightarrow> 'a \<Rightarrow> bool) \<Rightarrow> 'a list \<Rightarrow> nat \<Rightarrow> 'a list" where
  "siftup lt heap pos =
     (let endpos = length heap; startpos = pos; newitem = heap ! pos in
      case siftup_loop lt endpos heap pos of
        (heap', pos') \<Rightarrow> siftdown lt (heap'[pos' := newitem]) startpos pos')"

definition heappush :: "('a \<Rightarrow> 'a \<Rightarrow> bool) \<Rightarrow> 'a list \<Rightarrow> 'a \<Rightarrow> 'a list" where
  "heappush lt heap item = siftdown lt (heap @ [item]) 0 (length (heap @ [item]) - 1)"

text \<open>\<^verbatim>\<open>heappop\<close> returns the popped item and the heap; on an empty list it raises IndexError.\<close>

definition heappop :: "('a \<Rightarrow> 'a \<Rightarrow> bool) \<Rightarrow> 'a list \<Rightarrow> py_error + ('a \<times> 'a list)" where
  "heappop lt heap =
     (if heap = [] then Inl IndexError
      else (let lastelt = last heap; heap' = butlast heap in
            if heap' \<noteq> []
            then (let returnitem = heap' ! 0 in Inr (returnitem, siftup lt (heap'[0 := lastelt]) 0))
            else Inr (lastelt, heap')))"

definition heapify :: "('a \<Rightarrow> 'a \<Rightarrow> bool) \<Rightarrow> 'a list \<Rightarrow> 'a list" where
  "heapify lt x = foldl (\<lambda>h i. siftup lt h i) x (rev [0..<length x div 2])"

section \<open>Interconnect\<close>

text \<open>
  \<^verbatim>\<open>class Interconnect\<close>. The controller it forwards to is passed to \<^verbatim>\<open>tick\<close>
  explicitly. \<^verbatim>\<open>random.randint(0, 2)\<close> reads the module's global generator, which only
  the interconnect uses: \<open>jitter\<close> is the sequence of its outputs and \<open>draws\<close> the
  number of outputs consumed so far.
\<close>

record Interconnect =
  ic_queue :: "(int \<times> MemoryRequest) list"
  delay :: int
  bandwidth :: int
  ic_cycle :: int
  jitter :: "nat \<Rightarrow> int"
  draws :: nat

definition Interconnect_init :: "int \<Rightarrow> int \<Rightarrow> (nat \<Rightarrow> int) \<Rightarrow> Interconnect" where
  "Interconnect_init d b j =
     \<lparr>ic_queue = [], delay = d, bandwidth = b, ic_cycle = 0, jitter = j, draws = 0\<rparr>"

definition Interconnect_request :: "Interconnect \<Rightarrow> MemoryRequest \<Rightarrow> Interconnect" where
  "Interconnect_request ic req =
     (let ready_time = ic_cycle ic + delay ic + jitter ic (draws ic) in
      ic\<lparr>ic_queue := heappush entry_lt (ic_queue ic) (ready_time, req),
         draws := Suc (draws ic)\<rparr>)"

section \<open>DDR memory\<close>

datatype DDRState = IDLE | ACTIVATE_BANK_ROW | WRITING | READING | PRECHARGING

text \<open>
  \<^verbatim>\<open>class DDRMemory\<close>. \<open>ddr_store\<close> is the dictionary \<^verbatim>\<open>memory\<close>; the program never
  writes to it.
\<close>

record DDRMemory =
  num_banks :: int
  ddr_store :: "int \<rightharpoonup> int"
  ddr_cycle :: int
  base_latency :: int
  row_hit_latency :: int
  bank_states :: "DDRState list"
  bank_timers :: "int list"
  ddr_bank_open_row :: "int option list"
  bank_active_requests :: "MemoryRequest option list"
  scheduled_completions :: "(int \<times> MemoryRequest) list"

definition DDRMemory_init :: "int \<Rightarrow> DDRMemory" where
  "DDRMemory_init nb =
     \<lparr>num_banks = nb, ddr_store = Map.empty, ddr_cycle = 0, base_latency = 0,
      row_hit_latency = 0,
      bank_states = replicate (nat nb) IDLE,
      bank_timers = replicate (nat nb) 0,
      ddr_bank_open_row = replicate (nat nb) None,
      bank_active_requests = replicate (nat nb) None,
      scheduled_completions = []\<rparr>"

text \<open>\<^verbatim>\<open>_get_bank\<close> and \<^verbatim>\<open>_get_row\<close>.\<close>

definition get_bank :: "DDRMemory \<Rightarrow> int \<Rightarrow> py_error + int" where
  "get_bank d a = py_mod a (num_banks d)"

definition get_row :: "DDRMemory \<Rightarrow> int \<Rightarrow> int" where
  "get_row d a = a div 16"

text \<open>
  The two transitions of \<^verbatim>\<open>DDRMemory.request\<close>: into the access state with the row
  opened (from IDLE or on a row change), and into the access state with the row kept.
\<close>

definition open_and_access :: "DDRMemory \<Rightarrow> int \<Rightarrow> int \<Rightarrow> DDRState \<Rightarrow> int \<Rightarrow> py_error + DDRMemory" where
  "open_and_access d bank row st t =
     and_then (py_set (bank_states d) bank st) (\<lambda>states.
     and_then (py_set (bank_timers d) bank t) (\<lambda>timers.
     and_then (py_set (ddr_bank_open_row d) bank (Some row)) (\<lambda>rows.
       Inr (d\<lparr>bank_states := states, bank_timers := timers, ddr_bank_open_row := rows\<rparr>))))"

definition keep_and_access :: "DDRMemory \<Rightarrow> int \<Rightarrow> DDRState \<Rightarrow> int \<Rightarrow> py_error + DDRMemory" where
  "keep_and_access d bank st t =
     and_then (py_set (bank_states d) bank st) (\<lambda>states.
     and_then (py_set (bank_timers d) bank t) (\<lambda>timers.
       Inr (d\<lparr>bank_states := states, bank_timers := timers\<rparr>)))"

text \<open>
  The state machine step of \<^verbatim>\<open>DDRMemory.request\<close> for a request of kind \<open>k\<close>:
  \<open>acc\<close> is READING for a read and WRITING for a write. In the last branch the program
  only prints an error line. The condition \<^verbatim>\<open>current_state == IDLE or
  self.bank_open_row[bank] != row\<close> reads the open row only when the state is not IDLE.
\<close>

definition access_state :: "req_type \<Rightarrow> DDRState" where
  "access_state k = (case k of Read \<Rightarrow> READING | Write \<Rightarrow> WRITING)"

definition bank_step :: "DDRMemory \<Rightarrow> MemoryRequest \<Rightarrow> int \<Rightarrow> int \<Rightarrow> DDRState \<Rightarrow> py_error + DDRMemory" where
  "bank_step d req bank row current_state =
     (let acc = access_state (req_type req) in
      if current_state = IDLE then open_and_access d bank row acc (completion_time req)
      else and_then (py_get (ddr_bank_open_row d) bank) (\<lambda>open_row.
        if open_row \<noteq> Some row then open_and_access d bank row acc (completion_time req)
        else if current_state = ACTIVATE_BANK_ROW \<or> current_state = acc
        then keep_and_access d bank acc (completion_time req)
        else Inr d))"

text \<open>
  \<^verbatim>\<open>DDRMemory.request\<close>. The push onto \<^verbatim>\<open>scheduled_completions\<close> follows the
  \<^verbatim>\<open>if\<close>/\<^verbatim>\<open>elif\<close> on the request type and runs in every branch.
\<close>

definition DDRMemory_request :: "DDRMemory \<Rightarrow> MemoryRequest \<Rightarrow> py_error + DDRMemory" where
  "DDRMemory_request d req =
     and_then (get_bank d (addr req)) (\<lambda>bank.
     let row = get_row d (addr req) in
     and_then (py_get (bank_states d) bank) (\<lambda>current_state.
     and_then (bank_step d req bank row current_state) (\<lambda>d'.
       Inr (d'\<lparr>scheduled_completions :=
              heappush entry_lt (scheduled_completions d') (completion_time req, req)\<rparr>))))"

section \<open>DDR memory controller\<close>

text \<open>The dictionary \<^verbatim>\<open>{'request', 'bank', 'row', 'status'}\<close> kept per request passed to the DDR.\<close>

record sched_info =
  info_request :: MemoryRequest
  info_bank :: int
  info_row :: int
  info_status :: string

text \<open>
  \<^verbatim>\<open>class DDRMemoryController\<close>. The DDR it drives is passed explicitly.
  \<^verbatim>\<open>last_command_time\<close>, \<^verbatim>\<open>last_access_command\<close> and \<^verbatim>\<open>last_access_addr\<close> are
  dictionaries keyed by bank.
\<close>

record DDRMemoryController =
  ctrl_queue :: "(int \<times> MemoryRequest) list"
  scheduled_ddr_requests :: "sched_info list"
  ctrl_cycle :: int
  tRCD :: int
  tRP :: int
  tCAS :: int
  tRC :: int
  tWR :: int
  tRTP :: int
  tCCD :: int
  last_command_time :: "int \<rightharpoonup> int"
  bank_open_row :: "int option list"
  bank_precharge_complete_time :: "int list"
  last_access_command :: "int \<rightharpoonup> req_type"
  last_access_addr :: "int \<rightharpoonup> int"

definition DDRMemoryController_init ::
  "DDRMemory \<Rightarrow> int \<Rightarrow> int \<Rightarrow> int \<Rightarrow> int \<Rightarrow> int \<Rightarrow> int \<Rightarrow> int \<Rightarrow> DDRMemoryController" where
  "DDRMemoryController_init d rcd rp cas rc wr rtp ccd =
     \<lparr>ctrl_queue = [], scheduled_ddr_requests = [], ctrl_cycle = 0,
      tRCD = rcd, tRP = rp, tCAS = cas, tRC = rc, tWR = wr, tRTP = rtp, tCCD = ccd,
      last_command_time = Map.empty,
      bank_open_row = replicate (nat (num_banks d)) None,
      bank_precharge_complete_time = replicate (nat (num_banks d)) 0,
      last_access_command = Map.empty,
      last_access_addr = Map.empty\<rparr>"

text \<open>\<^verbatim>\<open>DDRMemoryController.request\<close>.\<close>

definition Controller_request :: "DDRMemoryController \<Rightarrow> MemoryRequest \<Rightarrow> DDRMemoryController" where
  "Controller_request c req = c\<lparr>ctrl_queue := heappush entry_lt (ctrl_queue c) (time req, req)\<rparr>"

text \<open>
  The loop of \<^verbatim>\<open>_schedule_next_request\<close> that collects the candidates, in queue order.
  A \<^verbatim>\<open>continue\<close> skips the request.
\<close>

fun collect_candidates ::
  "DDRMemoryController \<Rightarrow> DDRMemory \<Rightarrow> (int \<times> MemoryRequest) list \<Rightarrow> py_error + MemoryRequest list" where
  "collect_candidates c d [] = Inr []"
| "collect_candidates c d ((t, req) # rest) =
     and_then (get_bank d (addr req)) (\<lambda>bank.
     and_then (py_get (bank_precharge_complete_time c) bank) (\<lambda>pct.
       if pct > ctrl_cycle c then collect_candidates c d rest
       else (let last_cmd_time = (case last_command_time c bank of
                                    None \<Rightarrow> - tRC c | Some t' \<Rightarrow> t') in
             if ctrl_cycle c < last_cmd_time + tCCD c then collect_candidates c d rest
             else and_then (collect_candidates c d rest) (\<lambda>cs. Inr (req # cs)))))"

text \<open>
  The sort key \<^verbatim>\<open>(row hit first, reads before writes, req.time)\<close>; tuples are ordered
  lexicographically.
\<close>

definition sort_key_of ::
  "DDRMemoryController \<Rightarrow> DDRMemory \<Rightarrow> MemoryRequest \<Rightarrow> py_error + (int \<times> int \<times> int)" where
  "sort_key_of c d req =
     and_then (get_bank d (addr req)) (\<lambda>bank.
     and_then (py_get (bank_open_row c) bank) (\<lambda>open_row.
       Inr (if open_row = Some (get_row d (addr req)) then 0 else 1,
            if req_type req = Read then 0 else 1,
            time req)))"

fun keys_of ::
  "DDRMemoryController \<Rightarrow> DDRMemory \<Rightarrow> MemoryRequest list \<Rightarrow> py_error + (int \<times> int \<times> int) list" where
  "keys_of c d [] = Inr []"
| "keys_of c d (req # reqs) =
     and_then (sort_key_of c d req) (\<lambda>k.
     and_then (keys_of c d reqs) (\<lambda>ks. Inr (k # ks)))"

text \<open>
  \<^verbatim>\<open>candidates.sort(key=...)\<close>: the keys are computed for all candidates, then the
  candidates are sorted by key, stably.
\<close>

definition sort_candidates ::
  "DDRMemoryController \<Rightarrow> DDRMemory \<Rightarrow> MemoryRequest list \<Rightarrow> py_error + MemoryRequest list" where
  "sort_candidates c d cands =
     and_then (keys_of c d cands) (\<lambda>ks. Inr (map snd (sort_key fst (zip ks cands))))"

text \<open>
  The loop that removes the chosen request from the queue: the first entry whose request
  equals it. The program compares the objects; the chosen request is the first candidate
  of least key in queue order, hence also the first entry of the queue equal to it in
  value.
\<close>

fun remove_request :: "MemoryRequest \<Rightarrow> (int \<times> MemoryRequest) list \<Rightarrow> (int \<times> MemoryRequest) list" where
  "remove_request best [] = []"
| "remove_request best ((t, req) # rest) =
     (if req = best then rest else (t, req) # remove_request best rest)"

text \<open>The delay of the chosen request and the controller after the row bookkeeping.\<close>

definition row_delay ::
  "DDRMemoryController \<Rightarrow> DDRMemory \<Rightarrow> int \<Rightarrow> int \<Rightarrow>
     py_error + (int \<times> string \<times> DDRMemoryController)" where
  "row_delay c d bank row =
     and_then (py_get (bank_open_row c) bank) (\<lambda>open_row.
       if open_row = Some row then Inr (row_hit_latency d, ''ROW HIT'', c)
       else and_then (py_set (bank_precharge_complete_time c) bank (ctrl_cycle c + tRP c)) (\<lambda>pcts.
            and_then (py_set (bank_open_row c) bank (Some row)) (\<lambda>rows.
              Inr (tRP c + tRCD c + tCAS c, ''ROW MISS'',
                   c\<lparr>bank_precharge_complete_time := pcts, bank_open_row := rows\<rparr>))))"

definition transition_penalty :: "DDRMemoryController \<Rightarrow> int \<Rightarrow> req_type \<Rightarrow> int" where
  "transition_penalty c bank k =
     (case last_access_command c bank of
        None \<Rightarrow> 0
      | Some last_cmd_type \<Rightarrow>
          if last_cmd_type = Write \<and> k = Read then tWR c
          else if last_cmd_type = Read \<and> k = Write then tWR c + 2
          else 0)"

text \<open>\<^verbatim>\<open>_schedule_next_request\<close>.\<close>

definition schedule_next_request ::
  "DDRMemoryController \<Rightarrow> DDRMemory \<Rightarrow> py_error + (DDRMemoryController \<times> DDRMemory)" where
  "schedule_next_request c d =
     (if ctrl_queue c = [] then Inr (c, d)
      else and_then (collect_candidates c d (ctrl_queue c)) (\<lambda>candidates.
        if candidates = [] then Inr (c, d)
        else and_then (sort_candidates c d candidates) (\<lambda>sorted_candidates.
          let best_req = sorted_candidates ! 0 in
          and_then (get_bank d (addr best_req)) (\<lambda>bank.
          let row = get_row d (addr best_req) in
          and_then (row_delay c d bank row) (\<lambda>(delay0, row_status, c1).
          let delay' = delay0 + transition_penalty c1 bank (req_type best_req);
              completion = ctrl_cycle c1 + delay';
              c2 = c1\<lparr>last_command_time := (last_command_time c1)(bank \<mapsto> ctrl_cycle c1),
                      last_access_command := (last_access_command c1)(bank \<mapsto> req_type best_req),
                      last_access_addr := (last_access_addr c1)(bank \<mapsto> addr best_req)\<rparr>;
              c3 = c2\<lparr>ctrl_queue := heapify entry_lt (remove_request best_req (ctrl_queue c2))\<rparr>;
              issued = best_req\<lparr>time := ctrl_cycle c3, completion_time := completion\<rparr> in
          and_then (DDRMemory_request d issued) (\<lambda>d'.
            Inr (c3\<lparr>scheduled_ddr_requests := scheduled_ddr_requests c3 @
                       [\<lparr>info_request = issued, info_bank = bank, info_row = row,
                         info_status = row_status\<rparr>]\<rparr>, d')))))))"

section \<open>Cores and the machine state\<close>

text \<open>
  \<^verbatim>\<open>class MultiLevelCache\<close> holds the reference \<^verbatim>\<open>l1\<close> to the private cache of the
  core; \<^verbatim>\<open>class Core\<close> holds its multi-level cache, the pending accesses, the stalled
  operation and the trace \<^verbatim>\<open>inst\<close>.
\<close>

record MultiLevelCache =
  mlc_core_id :: int
  l1 :: nat

record Core =
  core_number :: int
  cache :: MultiLevelCache
  pending_accesses :: "(req_type \<times> int) list"
  stall_op :: "(req_type \<times> int) option"
  inst :: "int \<rightharpoonup> (req_type \<times> int)"

text \<open>
  The objects that callbacks reach: the store of cache levels, the interconnect and the
  cores. A reference is a position in \<open>caches\<close> or in \<open>cores\<close> and always denotes
  an object of the store.
\<close>

record machine =
  caches :: "CacheLevel list"
  interconnect :: Interconnect
  cores :: "Core list"

definition update_cache :: "machine \<Rightarrow> nat \<Rightarrow> (CacheLevel \<Rightarrow> CacheLevel) \<Rightarrow> machine" where
  "update_cache m ref f = m\<lparr>caches := (caches m)[ref := f (caches m ! ref)]\<rparr>"

text \<open>\<^verbatim>\<open>enqueue_access\<close>, \<^verbatim>\<open>dequeue_access\<close> and \<^verbatim>\<open>dependency\<close> of \<^verbatim>\<open>Core\<close>.\<close>

definition enqueue_access :: "Core \<Rightarrow> req_type \<Rightarrow> int \<Rightarrow> Core" where
  "enqueue_access self op a = self\<lparr>pending_accesses := pending_accesses self @ [(op, a)]\<rparr>"

fun dequeue_loop :: "req_type \<Rightarrow> int \<Rightarrow> (req_type \<times> int) list \<Rightarrow> (req_type \<times> int) list" where
  "dequeue_loop op a [] = []"
| "dequeue_loop op a ((o', a') # rest) =
     (if o' = op \<and> a' = a then rest else (o', a') # dequeue_loop op a rest)"

definition dequeue_access :: "Core \<Rightarrow> req_type \<Rightarrow> int \<Rightarrow> Core" where
  "dequeue_access self op a =
     self\<lparr>pending_accesses := dequeue_loop op a (pending_accesses self)\<rparr>"

fun dependency_loop :: "req_type \<Rightarrow> int \<Rightarrow> (req_type \<times> int) list \<Rightarrow> bool" where
  "dependency_loop op a [] = False"
| "dependency_loop op a ((o', a') # rest) =
     (if op \<noteq> o' \<and> a' = a then True else dependency_loop op a rest)"

definition dependency :: "Core \<Rightarrow> req_type \<Rightarrow> int \<Rightarrow> bool" where
  "dependency self op a = dependency_loop op a (pending_accesses self)"

section \<open>Cache operations\<close>

text \<open>
  The scan \<^verbatim>\<open>for i, line in enumerate(cache_set): if line.valid and line.tag == tag\<close>:
  the first way that hits.
\<close>

fun find_line :: "int \<Rightarrow> CacheLine list \<Rightarrow> nat option" where
  "find_line tg [] = None"
| "find_line tg (line # lines) =
     (if valid line \<and> tag line = Some tg then Some 0
      else map_option Suc (find_line tg lines))"

text \<open>Reading and replacing one line of a level, and replacing the PLRU tree of a set.\<close>

definition get_line :: "CacheLevel \<Rightarrow> int \<Rightarrow> nat \<Rightarrow> py_error + CacheLine" where
  "get_line c idx way =
     and_then (py_get (sets c) idx) (\<lambda>cache_set. py_get cache_set (int way))"

definition set_line :: "CacheLevel \<Rightarrow> int \<Rightarrow> nat \<Rightarrow> CacheLine \<Rightarrow> py_error + CacheLevel" where
  "set_line c idx way line =
     and_then (py_get (sets c) idx) (\<lambda>cache_set.
     and_then (py_set cache_set (int way) line) (\<lambda>cache_set'.
     and_then (py_set (sets c) idx cache_set') (\<lambda>sets'.
       Inr (c\<lparr>sets := sets'\<rparr>))))"

definition touch_plru :: "CacheLevel \<Rightarrow> int \<Rightarrow> nat \<Rightarrow> py_error + CacheLevel" where
  "touch_plru c idx way =
     and_then (py_get (plru_trees c) idx) (\<lambda>plru.
     and_then (update_on_access plru way) (\<lambda>plru'.
     and_then (py_set (plru_trees c) idx plru') (\<lambda>trees'.
       Inr (c\<lparr>plru_trees := trees'\<rparr>))))"

text \<open>
  The address of a victim line, \<^verbatim>\<open>((victim_line.tag * self.num_sets) + index) *
  self.line_size\<close>; a tag that is None cannot be multiplied.
\<close>

definition victim_addr_of :: "CacheLevel \<Rightarrow> CacheLine \<Rightarrow> int \<Rightarrow> py_error + int" where
  "victim_addr_of c victim_line idx =
     (case tag victim_line of
        None \<Rightarrow> Inl TypeError
      | Some t \<Rightarrow> Inr (((t * num_sets c) + idx) * line_size c))"

text \<open>
  The propagation of a write below a level, as the program writes it in four places:
  \<^verbatim>\<open>if self.lower: self.lower.write(a) elif self.memory: self.memory.request(
  MemoryRequest(self.core_id, self.memory.cycle, 'write', a))\<close>. \<open>lower_write\<close> is the
  \<^verbatim>\<open>write\<close> of cache levels.
\<close>

definition write_below ::
  "(machine \<Rightarrow> nat \<Rightarrow> int \<Rightarrow> py_error + machine) \<Rightarrow> machine \<Rightarrow> nat \<Rightarrow> int \<Rightarrow> py_error + machine" where
  "write_below lower_write m ref a =
     (let self = caches m ! ref in
      case lower self of
        Some l \<Rightarrow> lower_write m l a
      | None \<Rightarrow>
          if memory self
          then Inr (m\<lparr>interconnect := Interconnect_request (interconnect m)
                        (MemoryRequest_init (owner_core_id self) (ic_cycle (interconnect m))
                           Write a None)\<rparr>)
          else Inr m)"

text \<open>
  The write-back of a victim that is valid and dirty in a write-back level; otherwise
  nothing is emitted.
\<close>

definition write_back_victim ::
  "(machine \<Rightarrow> nat \<Rightarrow> int \<Rightarrow> py_error + machine) \<Rightarrow> machine \<Rightarrow> nat \<Rightarrow> int \<Rightarrow> nat \<Rightarrow> py_error + machine" where
  "write_back_victim lower_write m ref idx victim_idx =
     (let self = caches m ! ref in
      and_then (get_line self idx victim_idx) (\<lambda>victim_line.
        if valid victim_line \<and> dirty victim_line \<and> write_back self
        then and_then (victim_addr_of self victim_line idx) (\<lambda>victim_addr.
               write_below lower_write m ref victim_addr)
        else Inr m))"

text \<open>
  The installation of a tag in the victim line followed by
  \<^verbatim>\<open>plru.update_on_access(victim_idx)\<close>, on the level as it is after the write-back.
\<close>

definition install_line :: "machine \<Rightarrow> nat \<Rightarrow> int \<Rightarrow> nat \<Rightarrow> int \<Rightarrow> bool \<Rightarrow> py_error + machine" where
  "install_line m ref idx victim_idx tg d =
     (let self = caches m ! ref in
      and_then (set_line self idx victim_idx \<lparr>valid = True, tag = Some tg, dirty = d\<rparr>) (\<lambda>self1.
      and_then (touch_plru self1 idx victim_idx) (\<lambda>self2.
        Inr (m\<lparr>caches := (caches m)[ref := self2]\<rparr>))))"

text \<open>
  \<^verbatim>\<open>CacheLevel.write\<close>. The first argument bounds the descent through \<^verbatim>\<open>lower\<close>
  references, as the recursion limit of the interpreter does: a chain of \<^verbatim>\<open>lower\<close>
  references longer than it (a cyclic one, for instance) ends in RecursionError.
\<close>

primrec CacheLevel_write :: "nat \<Rightarrow> machine \<Rightarrow> nat \<Rightarrow> int \<Rightarrow> py_error + machine" where
  "CacheLevel_write 0 = (\<lambda>m ref a. Inl RecursionError)"
| "CacheLevel_write (Suc depth) = (\<lambda>m ref a.
     let self = caches m ! ref in
     and_then (index_of self a) (\<lambda>idx.
     and_then (tag_of self a) (\<lambda>tg.
     and_then (py_get (sets self) idx) (\<lambda>cache_set.
     and_then (py_get (plru_trees self) idx) (\<lambda>plru.
       case find_line tg cache_set of
         Some i \<Rightarrow>
           and_then (set_line (self\<lparr>hits := hits self + 1\<rparr>) idx i
                       ((cache_set ! i)\<lparr>dirty := write_back self\<rparr>)) (\<lambda>self1.
           and_then (touch_plru self1 idx i) (\<lambda>self2.
             let m1 = m\<lparr>caches := (caches m)[ref := self2]\<rparr> in
             if \<not> write_back self then write_below (CacheLevel_write depth) m1 ref a
             else Inr m1))
       | None \<Rightarrow>
           (let m0 = update_cache m ref (\<lambda>c. c\<lparr>misses := misses c + 1\<rparr>) in
            if write_allocate self
            then and_then (get_victim plru) (\<lambda>victim_idx.
                 and_then (py_get cache_set (int victim_idx)) (\<lambda>victim_line.
                 and_then (write_back_victim (CacheLevel_write depth) m0 ref idx victim_idx) (\<lambda>m1.
                   install_line m1 ref idx victim_idx tg (write_back self))))
            else write_below (CacheLevel_write depth) m0 ref a))))))"

text \<open>
  The invocation of a callback. \<^verbatim>\<open>lower_cb\<close> writes the victim back if it is valid and
  dirty when the callback runs, installs the missing tag with \<^verbatim>\<open>dirty = False\<close>,
  updates the PLRU tree and calls the caller's callback.
\<close>

fun invoke :: "nat \<Rightarrow> machine \<Rightarrow> callback \<Rightarrow> py_error + machine" where
  "invoke depth m (DequeueAccess core a) =
     Inr (m\<lparr>cores := (cores m)[core := dequeue_access (cores m ! core) Read a]\<rparr>)"
| "invoke depth m (LowerCb ref idx tg victim_idx cb) =
     and_then (write_back_victim (CacheLevel_write depth) m ref idx victim_idx) (\<lambda>m1.
     and_then (install_line m1 ref idx victim_idx tg False) (\<lambda>m2.
       invoke depth m2 cb))"

text \<open>\<^verbatim>\<open>CacheLevel.read\<close>.\<close>

primrec CacheLevel_read :: "nat \<Rightarrow> machine \<Rightarrow> nat \<Rightarrow> int \<Rightarrow> callback \<Rightarrow> py_error + machine" where
  "CacheLevel_read 0 = (\<lambda>m ref a cb. Inl RecursionError)"
| "CacheLevel_read (Suc depth) = (\<lambda>m ref a cb.
     let self = caches m ! ref in
     and_then (index_of self a) (\<lambda>idx.
     and_then (tag_of self a) (\<lambda>tg.
     and_then (py_get (sets self) idx) (\<lambda>cache_set.
     and_then (py_get (plru_trees self) idx) (\<lambda>plru.
       case find_line tg cache_set of
         Some i \<Rightarrow>
           and_then (touch_plru (self\<lparr>hits := hits self + 1\<rparr>) idx i) (\<lambda>self1.
             invoke depth (m\<lparr>caches := (caches m)[ref := self1]\<rparr>) cb)
       | None \<Rightarrow>
           (let m0 = update_cache m ref (\<lambda>c. c\<lparr>misses := misses c + 1\<rparr>) in
            and_then (get_victim plru) (\<lambda>victim_idx.
            and_then (py_get cache_set (int victim_idx)) (\<lambda>victim_line.
              let lower_cb = LowerCb ref idx tg victim_idx cb in
              case lower self of
                Some l \<Rightarrow> CacheLevel_read depth m0 l a lower_cb
              | None \<Rightarrow>
                  if memory self
                  then Inr (m0\<lparr>interconnect := Interconnect_request (interconnect m0)
                                 (MemoryRequest_init (owner_core_id self)
                                    (ic_cycle (interconnect m0)) Read a (Some lower_cb))\<rparr>)
                  else Inr m0))))))))"

section \<open>Bank tables and the arbitration rule\<close>

text \<open>
  The constructors give the DDR memory and its controller one entry per bank in each of
  their per-bank lists, and the program never changes the lengths: \<open>ddr_ok\<close> and
  \<open>banks_ok\<close> say so, for a positive number of banks. Then \<^verbatim>\<open>addr % num_banks\<close> is a
  valid bank.
\<close>

definition ddr_ok :: "DDRMemory \<Rightarrow> bool" where
  "ddr_ok d =
     (0 < num_banks d
      \<and> length (bank_states d) = nat (num_banks d)
      \<and> length (bank_timers d) = nat (num_banks d)
      \<and> length (ddr_bank_open_row d) = nat (num_banks d))"

definition banks_ok :: "DDRMemoryController \<Rightarrow> DDRMemory \<Rightarrow> bool" where
  "banks_ok c d =
     (ddr_ok d
      \<and> length (bank_open_row c) = nat (num_banks d)
      \<and> length (bank_precharge_complete_time c) = nat (num_banks d))"

text \<open>
  The words of the arbitration rule: the bank and the row of a request, when a queued
  request is a candidate (the dictionary \<^verbatim>\<open>last_command_time\<close> is read with the default
  \<^verbatim>\<open>-tRC\<close> for a bank that was never commanded), and the key candidates are ranked by:
  row hit before row miss, read before write, older before younger.
\<close>

definition bank_of :: "DDRMemory \<Rightarrow> MemoryRequest \<Rightarrow> nat" where
  "bank_of d req = nat (addr req mod num_banks d)"

definition row_of :: "MemoryRequest \<Rightarrow> int" where
  "row_of req = addr req div 16"

definition eligible :: "DDRMemoryController \<Rightarrow> DDRMemory \<Rightarrow> MemoryRequest \<Rightarrow> bool" where
  "eligible c d req =
     (bank_precharge_complete_time c ! bank_of d req \<le> ctrl_cycle c
      \<and> ctrl_cycle c \<ge> (case last_command_time c (int (bank_of d req)) of
                           None \<Rightarrow> - tRC c | Some t \<Rightarrow> t) + tCCD c)"

definition arbitration_key :: "DDRMemoryController \<Rightarrow> DDRMemory \<Rightarrow> MemoryRequest \<Rightarrow> int \<times> int \<times> int" where
  "arbitration_key c d req =
     (if bank_open_row c ! bank_of d req = Some (row_of req) then 0 else 1,
      if req_type req = Read then 0 else 1,
      time req)"

section \<open>An example state of the controller\<close>

text \<open>
  Four banks and the timing parameters of \<^verbatim>\<open>Experiment\<close>; at cycle 10 the queue holds a
  write to address 5 that arrived at cycle 0 and a read of address 0 that arrived at cycle 1.
\<close>

definition example_ddr :: DDRMemory where
  "example_ddr = DDRMemory_init 4"

definition example_write :: MemoryRequest where
  "example_write = MemoryRequest_init (StrId ''anycore'') 0 Write 5 None"

definition example_read :: MemoryRequest where
  "example_read = MemoryRequest_init (StrId ''anycore'') 1 Read 0 (Some (DequeueAccess 0 0))"

definition example_controller :: DDRMemoryController where
  "example_controller =
     (DDRMemoryController_init example_ddr 15 15 15 30 15 8 4)
       \<lparr>ctrl_queue := [(0, example_write), (1, example_read)], ctrl_cycle := 10\<rparr>"

text \<open>
  An interconnect of bandwidth 2 at cycle 6, holding two entries ready at cycle 5, one ready
  at cycle 6 and one ready at cycle 9.
\<close>

definition example_interconnect :: Interconnect where
  "example_interconnect =
     (Interconnect_init 5 2 (\<lambda>n. 0))
       \<lparr>ic_queue := [(5, MemoryRequest_init (StrId ''anycore'') 0 Write 5 None),
                     (5, MemoryRequest_init (StrId ''anycore'') 0 Write 9 None),
                     (6, MemoryRequest_init (StrId ''anycore'') 1 Write 13 None),
                     (9, MemoryRequest_init (StrId ''anycore'') 4 Write 17 None)],
         ic_cycle := 6\<rparr>"

section \<open>Requests that a bank rejects\<close>

text \<open>
  The last branch of \<^verbatim>\<open>DDRMemory.request\<close>, in which the program prints an error: the
  bank has the row of the request open and is neither IDLE, nor in ACTIVATE_BANK_ROW, nor
  in the access state of the kind of the request.
\<close>

definition rejected :: "DDRMemory \<Rightarrow> MemoryRequest \<Rightarrow> bool" where
  "rejected d req =
     (bank_states d ! bank_of d req \<noteq> IDLE
      \<and> ddr_bank_open_row d ! bank_of d req = Some (row_of req)
      \<and> bank_states d ! bank_of d req \<noteq> ACTIVATE_BANK_ROW
      \<and> bank_states d ! bank_of d req \<noteq> access_state (req_type req))"

text \<open>
  The callbacks that a completion drain at cycle \<open>cyc\<close> invokes, in order: those of the
  recorded reads whose completion time has come; and their invocation one after the other.
\<close>

fun due_callbacks :: "int \<Rightarrow> sched_info list \<Rightarrow> callback list" where
  "due_callbacks cyc [] = []"
| "due_callbacks cyc (req_info # rest) =
     (if completion_time (info_request req_info) \<le> cyc
         \<and> req_type (info_request req_info) = Read
      then (case callback (info_request req_info) of
              Some cb \<Rightarrow> cb # due_callbacks cyc rest
            | None \<Rightarrow> due_callbacks cyc rest)
      else due_callbacks cyc rest)"

fun invoke_all :: "nat \<Rightarrow> machine \<Rightarrow> callback list \<Rightarrow> py_error + machine" where
  "invoke_all depth m [] = Inr m"
| "invoke_all depth m (cb # cbs) = and_then (invoke depth m cb) (\<lambda>m1. invoke_all depth m1 cbs)"

text \<open>
  A DDR whose bank 0 is writing to its open row 0, a controller at cycle 10 with the read
  of address 0 queued after a write to bank 0, the read as the controller issues it, the
  controller at the completion time of the read, and a machine whose core 0 waits for
  the read.
\<close>

definition busy_ddr :: DDRMemory where
  "busy_ddr = example_ddr\<lparr>bank_states := [WRITING, IDLE, IDLE, IDLE],
                           bank_timers := [20, 0, 0, 0],
                           ddr_bank_open_row := [Some 0, None, None, None]\<rparr>"

definition busy_controller :: DDRMemoryController where
  "busy_controller =
     (DDRMemoryController_init example_ddr 15 15 15 30 15 8 4)
       \<lparr>ctrl_queue := [(1, example_read)], ctrl_cycle := 10,
         bank_open_row := [Some 0, None, None, None],
         last_command_time := [0 \<mapsto> 5],
         last_access_command := [0 \<mapsto> Write]\<rparr>"

definition issued_read :: MemoryRequest where
  "issued_read = example_read\<lparr>time := 10, completion_time := 25\<rparr>"

definition draining_controller :: DDRMemoryController where
  "draining_controller =
     busy_controller\<lparr>ctrl_queue := [],
       scheduled_ddr_requests := [\<lparr>info_request = issued_read, info_bank = 0, info_row = 0,
                                   info_status = ''ROW HIT''\<rparr>],
       ctrl_cycle := 25\<rparr>"

definition waiting_machine :: machine where
  "waiting_machine =
     \<lparr>caches = [], interconnect = Interconnect_init 5 4 (\<lambda>n. 0),
      cores = [\<lparr>core_number = 0, cache = \<lparr>mlc_core_id = 0, l1 = 0\<rparr>,
                pending_accesses = [(Read, 0)], stall_op = None, inst = Map.empty\<rparr>]\<rparr>"

section \<open>An example hierarchy\<close>

text \<open>
  A private level of one set and a shared level of two sets, two ways each, both
  write-back; way 0 of set 0 is valid and dirty in both. Core 0 waits for its read of
  address 28.
\<close>

definition example_line :: "bool \<Rightarrow> int option \<Rightarrow> bool \<Rightarrow> CacheLine" where
  "example_line v t d = \<lparr>valid = v, tag = t, dirty = d\<rparr>"

definition example_l1 :: CacheLevel where
  "example_l1 =
     \<lparr>level = ''L1'', owner_core_id = IntId 0, line_size = 4, assoc = 2, num_sets = 1,
      sets = [[example_line True (Some 3) True, example_line False None False]],
      plru_trees = [\<lparr>bits = [0], ways = 2\<rparr>],
      memory = False, lower = Some 1, write_back = True, write_allocate = True,
      hits = 0, misses = 1\<rparr>"

definition example_l2 :: CacheLevel where
  "example_l2 =
     \<lparr>level = ''L2'', owner_core_id = StrId ''anycore'', line_size = 4, assoc = 2, num_sets = 2,
      sets = [[example_line True (Some 5) True, example_line False None False],
              [example_line False None False, example_line False None False]],
      plru_trees = [\<lparr>bits = [0], ways = 2\<rparr>, \<lparr>bits = [0], ways = 2\<rparr>],
      memory = True, lower = None, write_back = True, write_allocate = True,
      hits = 0, misses = 1\<rparr>"

definition example_machine :: machine where
  "example_machine =
     \<lparr>caches = [example_l1, example_l2], interconnect = Interconnect_init 5 4 (\<lambda>n. 0),
      cores = [\<lparr>core_number = 0, cache = \<lparr>mlc_core_id = 0, l1 = 0\<rparr>,
                pending_accesses = [(Read, 28)], stall_op = None, inst = Map.empty\<rparr>]\<rparr>"

section \<open>The heap functions keep the length and the items\<close>

lemma siftdown_loop_keeps:
  "siftdown_loop lt x sp h p = (h', p') \<Longrightarrow> p < length h \<Longrightarrow>
     length h' = length h \<and> p' \<le> p \<and> mset (h'[p' := x]) = mset (h[p := x])"
proof (induction lt x sp h p arbitrary: h' p' rule: siftdown_loop.induct)
  case (1 lt x sp h p)
  define q where "q = drop_bit 1 (p - 1)"
  show ?case
  proof (cases "p > sp \<and> lt x (h ! q)")
    case True
    then have "0 < p" by simp
    moreover have "(p - 1) div 2 \<le> p - 1" by (rule div_le_dividend)
    ultimately have qp: "q < p" by (simp add: q_def drop_bit_eq_div)
    with "1.prems"(2) have ql: "q < length h" by simp
    have "siftdown_loop lt x sp h p = siftdown_loop lt x sp (h[p := h ! q]) q"
      using True by (subst siftdown_loop.simps) (simp add: q_def)
    with "1.prems"(1) have rec: "siftdown_loop lt x sp (h[p := h ! q]) q = (h', p')"
      by simp
    have ih: "length h' = length (h[p := h ! q]) \<and> p' \<le> q
        \<and> mset (h'[p' := x]) = mset ((h[p := h ! q])[q := x])"
      using "1.IH" [of h' p'] True rec ql by (simp add: q_def)
    define g where "g = h[p := x]"
    have "mset (g[p := g ! q, q := g ! p]) = mset g"
      using mset_swap [of q g p] ql "1.prems"(2) by (simp add: g_def)
    moreover have "g[p := g ! q, q := g ! p] = (h[p := h ! q])[q := x]"
      using qp "1.prems"(2) by (simp add: g_def)
    ultimately have "mset ((h[p := h ! q])[q := x]) = mset (h[p := x])"
      by (simp add: g_def)
    with ih qp show ?thesis by simp
  next
    case False
    have "siftdown_loop lt x sp h p = (h, p)"
      using False by (subst siftdown_loop.simps) (auto simp: q_def)
    with "1.prems"(1) have "h' = h" "p' = p" by simp_all
    then show ?thesis by simp
  qed
qed

lemma siftdown_keeps:
  assumes "p < length h"
  shows "length (siftdown lt h sp p) = length h" and "mset (siftdown lt h sp p) = mset h"
proof -
  obtain h' p' where r: "siftdown_loop lt (h ! p) sp h p = (h', p')"
    by (cases "siftdown_loop lt (h ! p) sp h p")
  from siftdown_loop_keeps [OF r assms]
  have k: "length h' = length h" "mset (h'[p' := h ! p]) = mset (h[p := h ! p])" by simp_all
  from r k(1) show "length (siftdown lt h sp p) = length h"
    by (simp add: siftdown_def Let_def)
  from r k(2) show "mset (siftdown lt h sp p) = mset h"
    by (simp add: siftdown_def Let_def)
qed

lemma smaller_child_range:
  "c < e \<Longrightarrow> smaller_child lt e h c < e \<and> c \<le> smaller_child lt e h c"
  by (simp add: smaller_child_def Let_def)

lemma siftup_loop_keeps:
  "siftup_loop lt e h p = (h', p') \<Longrightarrow> p < length h \<Longrightarrow> e = length h \<Longrightarrow>
     length h' = length h \<and> p' < length h \<and> p \<le> p' \<and> mset (h'[p' := x]) = mset (h[p := x])"
proof (induction lt e h p arbitrary: h' p' rule: siftup_loop.induct)
  case (1 lt e h p)
  define c where "c = smaller_child lt e h (2 * p + 1)"
  show ?case
  proof (cases "2 * p + 1 < e")
    case True
    then have cr: "c < e" "2 * p + 1 \<le> c"
      using smaller_child_range [of "2 * p + 1" e lt h] by (simp_all add: c_def)
    then have pc: "p < c" by simp
    from cr "1.prems"(3) have cl: "c < length h" by simp
    have "siftup_loop lt e h p = siftup_loop lt e (h[p := h ! c]) c"
      using True by (subst siftup_loop.simps) (simp add: c_def)
    with "1.prems"(1) have rec: "siftup_loop lt e (h[p := h ! c]) c = (h', p')"
      by simp
    have ih: "length h' = length (h[p := h ! c]) \<and> p' < length (h[p := h ! c]) \<and> c \<le> p'
        \<and> mset (h'[p' := x]) = mset ((h[p := h ! c])[c := x])"
      using "1.IH" [of h' p'] True rec cl "1.prems"(3) by (simp add: c_def)
    define g where "g = h[p := x]"
    have "mset (g[p := g ! c, c := g ! p]) = mset g"
      using mset_swap [of c g p] cl "1.prems"(2) by (simp add: g_def)
    moreover have "g[p := g ! c, c := g ! p] = (h[p := h ! c])[c := x]"
      using pc "1.prems"(2) by (simp add: g_def)
    ultimately have "mset ((h[p := h ! c])[c := x]) = mset (h[p := x])"
      by (simp add: g_def)
    with ih pc show ?thesis by simp
  next
    case False
    have "siftup_loop lt e h p = (h, p)"
      using False by (subst siftup_loop.simps) simp
    with "1.prems"(1) have "h' = h" "p' = p" by simp_all
    with "1.prems"(2) show ?thesis by simp
  qed
qed

lemma siftup_keeps:
  assumes "p < length h"
  shows "length (siftup lt h p) = length h" and "mset (siftup lt h p) = mset h"
proof -
  obtain h' p' where r: "siftup_loop lt (length h) h p = (h', p')"
    by (cases "siftup_loop lt (length h) h p")
  from siftup_loop_keeps [OF r assms refl, of "h ! p"]
  have k: "length h' = length h" "p' < length h" "mset (h'[p' := h ! p]) = mset h" by simp_all
  have e: "siftup lt h p = siftdown lt (h'[p' := h ! p]) p p'"
    using r by (simp add: siftup_def Let_def)
  have pl: "p' < length (h'[p' := h ! p])" using k by simp
  show "length (siftup lt h p) = length h"
    unfolding e using siftdown_keeps(1) [OF pl] k(1) by simp
  show "mset (siftup lt h p) = mset h"
    unfolding e using siftdown_keeps(2) [OF pl] k(3) by simp
qed

lemma heappush_keeps:
  "length (heappush lt h x) = Suc (length h)" "mset (heappush lt h x) = add_mset x (mset h)"
  using siftdown_keeps [of "length h" "h @ [x]" lt 0]
  by (simp_all add: heappush_def)

lemma heappop_keeps:
  assumes "heappop lt h = Inr (x, h')"
  shows "Suc (length h') = length h" and "mset h = add_mset x (mset h')"
proof -
  from assms have ne: "h \<noteq> []" by (auto simp: heappop_def split: if_splits)
  then have sn: "h = butlast h @ [last h]" by simp
  show "Suc (length h') = length h"
  proof (cases "butlast h = []")
    case True
    with sn have "h = [last h]" by simp
    then have "length h = 1" by (metis length_Cons list.size(3) One_nat_def)
    moreover from True assms ne have "h' = []" by (auto simp: heappop_def Let_def)
    ultimately show ?thesis by simp
  next
    case False
    then have "0 < length ((butlast h)[0 := last h])" by (simp del: length_butlast)
    from siftup_keeps(1) [OF this, of lt] assms ne False show ?thesis
      by (auto simp: heappop_def Let_def)
  qed
  show "mset h = add_mset x (mset h')"
  proof (cases "butlast h = []")
    case True
    with sn have "h = [last h]" by simp
    then have "mset h = {#last h#}" by (metis mset.simps(1) mset.simps(2))
    moreover from True assms ne have "h' = []" "x = last h" by (auto simp: heappop_def Let_def)
    ultimately show ?thesis by simp
  next
    case False
    then have pos: "0 < length ((butlast h)[0 := last h])" by (simp del: length_butlast)
    have x: "x = butlast h ! 0" and h': "h' = siftup lt ((butlast h)[0 := last h]) 0"
      using assms ne False by (auto simp: heappop_def Let_def)
    have "mset h' = mset ((butlast h)[0 := last h])"
      unfolding h' by (rule siftup_keeps(2) [OF pos])
    also have "\<dots> = add_mset (last h) (mset (butlast h) - {#butlast h ! 0#})"
      by (rule mset_update) (use False in \<open>simp del: length_butlast\<close>)
    finally have "add_mset x (mset h') = add_mset (last h) (mset (butlast h))"
      using False by (simp add: x nth_mem_mset del: length_butlast)
    also have "\<dots> = mset (butlast h @ [last h])" by simp
    finally show ?thesis using sn by simp
  qed
qed

section \<open>Ticks of the interconnect, the controller and the cores\<close>

text \<open>
  The loop of \<^verbatim>\<open>Interconnect.tick\<close>: \<^verbatim>\<open>while self.queue and self.queue[0][0] <=
  self.cycle and processed < self.bandwidth\<close>, popping into \<^verbatim>\<open>requests_to_forward\<close>.
  Every iteration shortens the queue, so the loop ends.
\<close>

function pop_ready ::
  "int \<Rightarrow> int \<Rightarrow> (int \<times> MemoryRequest) list \<Rightarrow> MemoryRequest list \<Rightarrow> int \<Rightarrow>
     py_error + ((int \<times> MemoryRequest) list \<times> MemoryRequest list)" where
  "pop_ready cyc bw q requests_to_forward processed =
     (if q \<noteq> [] \<and> fst (q ! 0) \<le> cyc \<and> processed < bw
      then (case heappop entry_lt q of
              Inl e \<Rightarrow> Inl e
            | Inr (popped, q') \<Rightarrow>
                pop_ready cyc bw q' (requests_to_forward @ [snd popped]) (processed + 1))
      else Inr (q, requests_to_forward))"
  by pat_completeness auto
termination
  by (relation "measure (\<lambda>(cyc, bw, q, requests_to_forward, processed). length q)")
    (auto dest!: heappop_keeps(1))

declare pop_ready.simps [simp del]

text \<open>\<^verbatim>\<open>Interconnect.tick\<close>, with the controller the requests are forwarded to.\<close>

definition Interconnect_tick ::
  "Interconnect \<Rightarrow> DDRMemoryController \<Rightarrow> py_error + (Interconnect \<times> DDRMemoryController)" where
  "Interconnect_tick ic c =
     and_then (pop_ready (ic_cycle ic) (bandwidth ic) (ic_queue ic) [] 0)
       (\<lambda>(q', requests_to_forward).
          Inr (ic\<lparr>ic_queue := q', ic_cycle := ic_cycle ic + 1\<rparr>,
               foldl Controller_request c requests_to_forward))"

text \<open>
  The first loop of \<^verbatim>\<open>_complete_ddr_requests\<close>: every in-flight request whose
  completion time has come is completed, a read with a callback has its callback invoked.
  The result is the list \<^verbatim>\<open>completed\<close> and the machine after the callbacks.
\<close>

fun complete_loop ::
  "nat \<Rightarrow> int \<Rightarrow> sched_info list \<Rightarrow> machine \<Rightarrow> py_error + (sched_info list \<times> machine)" where
  "complete_loop depth cyc [] m = Inr ([], m)"
| "complete_loop depth cyc (req_info # rest) m =
     (let req = info_request req_info in
      if completion_time req \<le> cyc
      then and_then (case req_type req of
                       Read \<Rightarrow> (case callback req of
                                   Some cb \<Rightarrow> invoke depth m cb
                                 | None \<Rightarrow> Inr m)
                     | Write \<Rightarrow> Inr m) (\<lambda>m1.
           and_then (complete_loop depth cyc rest m1) (\<lambda>(completed, m2).
             Inr (req_info # completed, m2)))
      else complete_loop depth cyc rest m)"

text \<open>\<^verbatim>\<open>_complete_ddr_requests\<close>; the second loop removes the completed entries.\<close>

definition complete_ddr_requests ::
  "nat \<Rightarrow> DDRMemoryController \<Rightarrow> machine \<Rightarrow> py_error + (DDRMemoryController \<times> machine)" where
  "complete_ddr_requests depth c m =
     and_then (complete_loop depth (ctrl_cycle c) (scheduled_ddr_requests c) m)
       (\<lambda>(completed, m').
          Inr (c\<lparr>scheduled_ddr_requests :=
                   foldl (\<lambda>l req_info. remove1 req_info l) (scheduled_ddr_requests c) completed\<rparr>,
               m'))"

text \<open>\<^verbatim>\<open>DDRMemoryController.tick\<close>.\<close>

definition Controller_tick ::
  "nat \<Rightarrow> DDRMemoryController \<Rightarrow> DDRMemory \<Rightarrow> machine \<Rightarrow>
     py_error + (DDRMemoryController \<times> DDRMemory \<times> machine)" where
  "Controller_tick depth c d m =
     and_then (complete_ddr_requests depth c m) (\<lambda>(c1, m1).
     and_then (schedule_next_request c1 d) (\<lambda>(c2, d1).
       Inr (c2\<lparr>ctrl_cycle := ctrl_cycle c2 + 1\<rparr>, d1, m1)))"

text \<open>
  The issue of a read by a core: \<^verbatim>\<open>self.enqueue_access('read', addr)\<close>, then
  \<^verbatim>\<open>self.read(addr, lambda addr=addr: self.dequeue_access('read', addr))\<close>, which
  reaches the private cache through \<^verbatim>\<open>self.cache.read\<close>; and the issue of a write.
\<close>

definition issue_read :: "nat \<Rightarrow> machine \<Rightarrow> nat \<Rightarrow> int \<Rightarrow> py_error + machine" where
  "issue_read depth m core a =
     (let m1 = m\<lparr>cores := (cores m)[core := enqueue_access (cores m ! core) Read a]\<rparr> in
      CacheLevel_read depth m1 (l1 (cache (cores m1 ! core))) a (DequeueAccess core a))"

definition issue_write :: "nat \<Rightarrow> machine \<Rightarrow> nat \<Rightarrow> int \<Rightarrow> py_error + machine" where
  "issue_write depth m core a = CacheLevel_write depth m (l1 (cache (cores m ! core))) a"

definition set_stall :: "machine \<Rightarrow> nat \<Rightarrow> (req_type \<times> int) option \<Rightarrow> machine" where
  "set_stall m core v = m\<lparr>cores := (cores m)[core := (cores m ! core)\<lparr>stall_op := v\<rparr>]\<rparr>"

text \<open>\<^verbatim>\<open>Core.tick\<close> at the global cycle \<open>global_cycle\<close>.\<close>

definition Core_tick :: "nat \<Rightarrow> int \<Rightarrow> machine \<Rightarrow> nat \<Rightarrow> py_error + machine" where
  "Core_tick depth global_cycle m core =
     (let self = cores m ! core in
      case stall_op self of
        Some (op, a) \<Rightarrow>
          if \<not> dependency self op a
          then (case op of
                  Write \<Rightarrow> and_then (issue_write depth m core a) (\<lambda>m1. Inr (set_stall m1 core None))
                | Read \<Rightarrow> and_then (issue_read depth m core a) (\<lambda>m1. Inr (set_stall m1 core None)))
          else Inr m
      | None \<Rightarrow>
          (case inst self global_cycle of
             Some (op, a) \<Rightarrow>
               (case op of
                  Write \<Rightarrow>
                    if dependency self Write a then Inr (set_stall m core (Some (Write, a)))
                    else issue_write depth m core a
                | Read \<Rightarrow>
                    if dependency self Read a then Inr (set_stall m core (Some (Read, a)))
                    else issue_read depth m core a)
           | None \<Rightarrow> Inr m))"

section \<open>Properties of the PLRU tree\<close>

lemma bit_length_nat_pow2: "bit_length_nat (2 ^ k) = Suc k"
proof (induction k)
  case 0
  show ?case by (simp add: bit_length_nat.simps [of "Suc 0"] bit_length_nat.simps [of 0])
next
  case (Suc k)
  then show ?case by (simp add: bit_length_nat.simps [of "2 * 2 ^ k"])
qed

lemma bit_length_pow2: "bit_length (2 ^ k) = Suc k"
proof -
  have e: "nat \<bar>2 ^ k :: int\<bar> = 2 ^ k" by (simp add: nat_power_eq)
  show ?thesis unfolding bit_length_def e by (rule bit_length_nat_pow2)
qed

lemma shift_or_one: "push_bit 1 (w::nat) OR 1 = 2 * w + 1"
  by (simp add: or_one_eq push_bit_eq_mult del: One_nat_def)

lemma shift_or_bit: "d \<le> 1 \<Longrightarrow> push_bit 1 (w::nat) OR d = 2 * w + d"
proof -
  assume "d \<le> 1"
  then consider "d = 0" | "d = 1" by linarith
  then show ?thesis
  proof cases
    case 1
    then show ?thesis by simp
  next
    case 2
    then show ?thesis using shift_or_one [of w] by simp
  qed
qed

lemma shift_idx: "push_bit 1 (idx::nat) + 1 + d = 2 * idx + 1 + d"
  by simp

text \<open>
  A tree index reached after \<open>k\<close> levels is below \<open>2 ^ (k + 1) - 1\<close>; with an array of
  \<open>2 ^ n - 1\<close> bits and \<open>n - k\<close> levels left, every index the walk reads is in range.
\<close>

lemma victim_loop_ok:
  assumes "\<forall>b \<in> set bs. b \<le> 1"
    and "idx + 2 \<le> 2 ^ Suc k"
    and "2 ^ (k + length levels) \<le> length bs + 1"
  shows "\<exists>v. victim_loop bs levels idx way = Inr v \<and> v div 2 ^ length levels = way"
  using assms
proof (induction levels arbitrary: idx way k)
  case Nil
  then show ?case by simp
next
  case (Cons level levels)
  have "(2::nat) ^ Suc k \<le> 2 ^ (k + length (level # levels))"
    by (rule power_increasing) simp_all
  with Cons.prems have inb: "idx < length bs" by linarith
  define d where "d = bs ! idx"
  from inb Cons.prems(1) have d1: "d \<le> 1" by (simp add: d_def)
  have step: "victim_loop bs (level # levels) idx way =
      victim_loop bs levels (2 * idx + 1 + d) (2 * way + d)"
    using inb shift_or_bit [OF d1, of way] shift_idx [of idx d]
    by (simp only: victim_loop.simps d_def Let_def if_True)
  have "2 * idx + 1 + d + 2 \<le> 2 ^ Suc (Suc k)"
    using Cons.prems(2) d1 by simp
  moreover have "2 ^ (Suc k + length levels) \<le> length bs + 1"
    using Cons.prems(3) by simp
  ultimately obtain v where v: "victim_loop bs levels (2 * idx + 1 + d) (2 * way + d) = Inr v"
      "v div 2 ^ length levels = 2 * way + d"
    using Cons.IH [of "2 * idx + 1 + d" "Suc k" "2 * way + d"] Cons.prems(1) by blast
  have "(2::nat) ^ length (level # levels) = 2 ^ length levels * 2" by simp
  then have "v div 2 ^ length (level # levels) = (v div 2 ^ length levels) div 2"
    by (simp only: div_mult2_eq)
  also have "\<dots> = way" using v(2) d1 by simp
  finally show ?case using step v(1) by simp
qed

lemma update_loop_ok:
  assumes "\<forall>b \<in> set bs. b \<le> 1"
    and "idx + 2 \<le> 2 ^ Suc k"
    and "2 ^ (k + length levels) \<le> length bs + 1"
  shows "\<exists>bs'. update_loop n way levels idx bs = Inr bs' \<and> length bs' = length bs
           \<and> (\<forall>b \<in> set bs'. b \<le> 1) \<and> (\<forall>j < idx. bs' ! j = bs ! j)"
  using assms
proof (induction levels arbitrary: idx bs k)
  case Nil
  then show ?case by simp
next
  case (Cons level levels)
  have "(2::nat) ^ Suc k \<le> 2 ^ (k + length (level # levels))"
    by (rule power_increasing) simp_all
  with Cons.prems have inb: "idx < length bs" by linarith
  define d where "d = drop_bit (n - 1 - level) way AND 1"
  have d1: "d \<le> 1" by (simp add: d_def and_one_eq)
  define bs1 where "bs1 = bs[idx := 1 - d]"
  have step: "update_loop n way (level # levels) idx bs =
      update_loop n way levels (2 * idx + 1 + d) bs1"
    using inb shift_idx [of idx d]
    by (simp only: update_loop.simps d_def bs1_def Let_def if_True)
  have b1: "\<forall>b \<in> set bs1. b \<le> 1"
  proof
    fix b assume "b \<in> set bs1"
    then have "b \<in> insert (1 - d) (set bs)"
      unfolding bs1_def using set_update_subset_insert by fastforce
    then show "b \<le> 1" using Cons.prems(1) by auto
  qed
  have "2 * idx + 1 + d + 2 \<le> 2 ^ Suc (Suc k)"
    using Cons.prems(2) d1 by simp
  moreover have "2 ^ (Suc k + length levels) \<le> length bs1 + 1"
    using Cons.prems(3) by (simp add: bs1_def)
  ultimately obtain bs' where r: "update_loop n way levels (2 * idx + 1 + d) bs1 = Inr bs'"
      "length bs' = length bs1" "\<forall>b \<in> set bs'. b \<le> 1" "\<forall>j < 2 * idx + 1 + d. bs' ! j = bs1 ! j"
    using Cons.IH [of bs1 "2 * idx + 1 + d" "Suc k"] b1 by blast
  have "\<forall>j < idx. bs' ! j = bs ! j"
    using r(4) by (simp add: bs1_def)
  then show ?case using step r by (simp add: bs1_def)
qed


lemma pow2_bits_nonempty: "1 \<le> k \<Longrightarrow> 0 < (2::nat) ^ k - 1"
proof -
  assume "1 \<le> k"
  then have "(2::nat) ^ 1 \<le> 2 ^ k" by (intro power_increasing) simp_all
  then show ?thesis by simp
qed

lemma top_bit_of_way:
  assumes "1 \<le> k" and "w < (2::nat) ^ k"
  shows "drop_bit (k - 1) w AND 1 = w div 2 ^ (k - 1)" and "w div 2 ^ (k - 1) \<le> 1"
proof -
  from assms(1) have "(2::nat) ^ k = 2 ^ (k - 1) * 2"
    by (cases k) simp_all
  with assms(2) have "w div 2 ^ (k - 1) < 2"
    by (simp add: less_mult_imp_div_less)
  then show "w div 2 ^ (k - 1) \<le> 1" by simp
  then show "drop_bit (k - 1) w AND 1 = w div 2 ^ (k - 1)"
    by (simp add: and_one_eq drop_bit_eq_div)
qed

text \<open>
  C5. For a PLRU tree whose \<^verbatim>\<open>ways\<close> is a power of two and at least 2, with its
  \<^verbatim>\<open>ways - 1\<close> direction bits each 0 or 1, and for every way \<open>w\<close> below \<^verbatim>\<open>ways\<close>:
  \<^verbatim>\<open>update_on_access(w)\<close> returns, and \<^verbatim>\<open>get_victim()\<close> on the updated tree returns
  a way different from \<open>w\<close>.
\<close>

theorem plru_victim_differs_from_last_access:
  assumes "ways p = 2 ^ k" and "1 \<le> k"
    and "length (bits p) = 2 ^ k - 1"
    and "\<forall>b \<in> set (bits p). b \<le> 1"
    and "w < 2 ^ k"
  shows "\<exists>p' v. update_on_access p w = Inr p' \<and> get_victim p' = Inr v \<and> v \<noteq> w"
proof -
  define bs where "bs = bits p"
  define d0 where "d0 = drop_bit (k - 1) w AND 1"
  have d0: "d0 = w div 2 ^ (k - 1)" "d0 \<le> 1"
    using top_bit_of_way [OF assms(2) assms(5)] by (simp_all add: d0_def)
  define bs1 where "bs1 = bs[0 := 1 - d0]"
  have nl: "bit_length (ways p) - 1 = k" "bit_length (ways p) - Suc 0 = k"
    by (simp_all add: assms(1) bit_length_pow2)
  have lv: "[0..<k] = 0 # [1..<k]"
    using assms(2) by (simp add: upt_conv_Cons)
  have len: "length bs = 2 ^ k - 1" "0 < length bs"
    using assms(3) pow2_bits_nonempty [OF assms(2)] by (simp_all add: bs_def)
  have pw: "(2::nat) ^ (1 + length [1..<k]) \<le> length bs + 1"
    using assms(2) len by simp
  have first: "update_loop k w [0..<k] 0 bs = update_loop k w [1..<k] (1 + d0) bs1"
    using len(2) unfolding lv by (simp add: d0_def bs1_def Let_def)
  have b1: "\<forall>b \<in> set bs1. b \<le> 1"
  proof
    fix b assume "b \<in> set bs1"
    then have "b \<in> insert (1 - d0) (set bs)"
      unfolding bs1_def using set_update_subset_insert by fastforce
    then show "b \<le> 1" using assms(4) by (auto simp: bs_def)
  qed
  have "1 + d0 + 2 \<le> 2 ^ Suc 1" using d0(2) by simp
  moreover have "(2::nat) ^ (1 + length [1..<k]) \<le> length bs1 + 1"
    using pw by (simp add: bs1_def)
  ultimately obtain bs' where r: "update_loop k w [1..<k] (1 + d0) bs1 = Inr bs'"
      "length bs' = length bs1" "\<forall>b \<in> set bs'. b \<le> 1" "\<forall>j < 1 + d0. bs' ! j = bs1 ! j"
    using update_loop_ok [OF b1, of "1 + d0" 1 "[1..<k]" k w] by blast
  have root: "bs' ! 0 = 1 - d0"
    using r(4) len(2) by (simp add: bs1_def)
  have len': "0 < length bs'" "length bs' = length bs"
    using r(2) len(2) by (simp_all add: bs1_def)
  define p' where "p' = p\<lparr>bits := bs'\<rparr>"
  have upd: "update_on_access p w = Inr p'"
    using first r(1) by (simp add: update_on_access_def nl bs_def p'_def)
  have vfirst: "victim_loop bs' [0..<k] 0 0 = victim_loop bs' [1..<k] (1 + (1 - d0)) (1 - d0)"
    using len'(1) root unfolding lv by (simp add: Let_def)
  have "1 + (1 - d0) + 2 \<le> 2 ^ Suc 1" by simp
  moreover have "(2::nat) ^ (1 + length [1..<k]) \<le> length bs' + 1"
    using pw len'(2) by simp
  ultimately obtain v where v: "victim_loop bs' [1..<k] (1 + (1 - d0)) (1 - d0) = Inr v"
      "v div 2 ^ length [1..<k] = 1 - d0"
    using victim_loop_ok [OF r(3), of "1 + (1 - d0)" 1 "[1..<k]" "1 - d0"] by blast
  have vic: "get_victim p' = Inr v"
    using vfirst v(1) by (simp add: get_victim_def p'_def nl)
  have "v \<noteq> w"
  proof
    assume "v = w"
    with v(2) d0(1) have "d0 = 1 - d0" by simp
    with d0(2) show False by (cases "d0 = 0") simp_all
  qed
  with upd vic show ?thesis by blast
qed

theorem plru_victim_differs_from_last_access_witness:
  "\<exists>p' v. update_on_access \<lparr>bits = [0, 1, 1], ways = 4\<rparr> 3 = Inr p'
      \<and> get_victim p' = Inr v \<and> v \<noteq> 3"
  using plru_victim_differs_from_last_access [of "\<lparr>bits = [0, 1, 1], ways = 4\<rparr>" 2 3]
  by simp

text \<open>
  C10. For a PLRU tree whose \<^verbatim>\<open>ways\<close> is a power of two, with its \<^verbatim>\<open>ways - 1\<close>
  direction bits each 0 or 1, \<^verbatim>\<open>get_victim()\<close> raises no IndexError (every tree index
  it reads is inside the bit array) and returns a way below \<^verbatim>\<open>ways\<close>, which is the
  length of the cache set the caller indexes with it.
\<close>

theorem get_victim_in_bounds:
  assumes "ways p = 2 ^ k"
    and "length (bits p) = 2 ^ k - 1"
    and "\<forall>b \<in> set (bits p). b \<le> 1"
  shows "\<exists>v. get_victim p = Inr v \<and> int v < ways p"
proof -
  have nl: "bit_length (ways p) - 1 = k" "bit_length (ways p) - Suc 0 = k"
    by (simp_all add: assms(1) bit_length_pow2)
  have "(0::nat) + 2 \<le> 2 ^ Suc 0" by simp
  moreover have "(2::nat) ^ (0 + length [0..<k]) \<le> length (bits p) + 1"
    by (simp add: assms(2))
  ultimately obtain v where v: "victim_loop (bits p) [0..<k] 0 0 = Inr v"
      "v div 2 ^ length [0..<k] = 0"
    using victim_loop_ok [OF assms(3), of 0 0 "[0..<k]" 0] by blast
  from v(2) have "v < 2 ^ k" by (simp add: div_eq_0_iff)
  then have "int v < 2 ^ k" by (metis of_nat_less_iff of_nat_numeral of_nat_power)
  then have "int v < ways p" by (simp add: assms(1))
  with v(1) show ?thesis by (simp add: get_victim_def nl)
qed

theorem get_victim_in_bounds_witness:
  "\<exists>v. get_victim \<lparr>bits = [1, 0, 1], ways = 4\<rparr> = Inr v \<and> int v < 4"
  using get_victim_in_bounds [of "\<lparr>bits = [1, 0, 1], ways = 4\<rparr>" 2]
  by simp

section \<open>Construction\<close>

lemma and_then_simps [simp]:
  "and_then (Inl e) f = Inl e" "and_then (Inr x) f = f x"
  by (simp_all add: and_then_def)

lemma and_then_Inr:
  "and_then r f = Inr y \<longleftrightarrow> (\<exists>x. r = Inr x \<and> f x = Inr y)"
  by (cases r) simp_all

text \<open>
  C8 as stated fails: the constructors validate nothing. A cache level with three ways
  and a size of 30 that is not a multiple of \<open>line_size \<times> assoc = 12\<close> is built, with
  \<open>(30 // 4) // 3 = 2\<close> sets, and a DDR memory with no bank at all is built too.
\<close>

theorem construction_accepts_invalid_configuration:
  "map_sum id num_sets (CacheLevel_init ''L1'' (IntId 0) 30 4 3 False True True) = Inr 2
   \<and> bank_states (DDRMemory_init 0) = []
   \<and> bank_states (DDRMemory_init (- 2)) = []"
  by (simp add: CacheLevel_init_def py_floordiv_def DDRMemory_init_def)

text \<open>
  C8, amended. Construction validates nothing. \<^verbatim>\<open>CacheLevel.__init__\<close> raises exactly
  when \<^verbatim>\<open>line_size\<close> or \<^verbatim>\<open>assoc\<close> is zero, and then it is the ZeroDivisionError of
  \<^verbatim>\<open>(size // line_size) // assoc\<close>; in every other case, a valid configuration included,
  it returns a level with that many sets, each of \<^verbatim>\<open>assoc\<close> lines, whether or not \<^verbatim>\<open>assoc\<close>
  is a power of two or \<^verbatim>\<open>size\<close> a multiple of \<^verbatim>\<open>line_size \<times> assoc\<close>.
  \<^verbatim>\<open>DDRMemory.__init__\<close> never raises: it builds \<^verbatim>\<open>max(num_banks, 0)\<close> idle banks.
\<close>

theorem construction_fails_only_on_zero_division:
  "(case CacheLevel_init nm cid sz ls a mem wb wa of
      Inl e \<Rightarrow> e = ZeroDivisionError \<and> (ls = 0 \<or> a = 0)
    | Inr c \<Rightarrow> ls \<noteq> 0 \<and> a \<noteq> 0 \<and> num_sets c = (sz div ls) div a \<and> assoc c = a
        \<and> line_size c = ls
        \<and> sets c = replicate (nat (num_sets c)) (replicate (nat a) CacheLine_init)
        \<and> plru_trees c = replicate (nat (num_sets c)) (PLRU_init a))
   \<and> bank_states (DDRMemory_init nb) = replicate (nat nb) IDLE
   \<and> num_banks (DDRMemory_init nb) = nb"
  by (simp add: CacheLevel_init_def py_floordiv_def DDRMemory_init_def)

theorem construction_fails_only_on_zero_division_witness:
  "map_sum id num_sets (CacheLevel_init ''L1'' (IntId 0) 32 4 2 False True True) = Inr 4
   \<and> CacheLevel_init ''L1'' (IntId 0) 32 0 2 False True True = Inl ZeroDivisionError"
  using construction_fails_only_on_zero_division [where nm = "''L1''" and cid = "IntId 0"
      and sz = 32 and ls = 4 and a = 2 and mem = False and wb = True and wa = True and nb = 4]
    construction_fails_only_on_zero_division [where nm = "''L1''" and cid = "IntId 0"
      and sz = 32 and ls = 0 and a = 2 and mem = False and wb = True and wa = True and nb = 4]
  by (auto split: sum.splits)

section \<open>Hazards at the core\<close>

lemma dependency_loop_iff:
  "dependency_loop op a ps \<longleftrightarrow> (\<exists>e \<in> set ps. snd e = a \<and> fst e \<noteq> op)"
  by (induction ps) auto

text \<open>
  C7. An operation \<open>(op, a)\<close> is judged hazardous exactly when some pending access has
  the same address and a different kind, so a read does not conflict with pending reads.
  When a core that is not stalled finds at the current cycle a trace entry that is
  hazardous, its tick stores the entry in \<^verbatim>\<open>stall_op\<close> and does nothing else: the caches,
  the interconnect and the pending accesses are as before.
\<close>

theorem hazard_rule:
  "(dependency self op a \<longleftrightarrow> (\<exists>e \<in> set (pending_accesses self). snd e = a \<and> fst e \<noteq> op))
   \<and> ((\<forall>e \<in> set (pending_accesses self). fst e = Read) \<longrightarrow> \<not> dependency self Read a)
   \<and> (stall_op (cores m ! core) = None \<and> inst (cores m ! core) global_cycle = Some (op, a)
        \<and> dependency (cores m ! core) op a
        \<longrightarrow> (\<exists>m'. Core_tick depth global_cycle m core = Inr m'
              \<and> caches m' = caches m \<and> interconnect m' = interconnect m
              \<and> cores m' = (cores m)[core := (cores m ! core)\<lparr>stall_op := Some (op, a)\<rparr>]))"
proof (intro conjI impI)
  show iff: "dependency self op a \<longleftrightarrow> (\<exists>e \<in> set (pending_accesses self). snd e = a \<and> fst e \<noteq> op)"
    for self op a
    by (simp add: dependency_def dependency_loop_iff)
  show "\<not> dependency self Read a" if "\<forall>e \<in> set (pending_accesses self). fst e = Read"
    using that by (auto simp: iff)
  assume h: "stall_op (cores m ! core) = None \<and> inst (cores m ! core) global_cycle = Some (op, a)
      \<and> dependency (cores m ! core) op a"
  then have "Core_tick depth global_cycle m core = Inr (set_stall m core (Some (op, a)))"
    by (cases op) (simp_all add: Core_tick_def Let_def)
  then show "\<exists>m'. Core_tick depth global_cycle m core = Inr m'
      \<and> caches m' = caches m \<and> interconnect m' = interconnect m
      \<and> cores m' = (cores m)[core := (cores m ! core)\<lparr>stall_op := Some (op, a)\<rparr>]"
    by (simp add: set_stall_def)
qed

theorem hazard_rule_witness:
  "dependency \<lparr>core_number = 0, cache = \<lparr>mlc_core_id = 0, l1 = 0\<rparr>,
      pending_accesses = [(Read, 0)], stall_op = None, inst = [1 \<mapsto> (Write, 0)]\<rparr> Write 0
   \<and> \<not> dependency \<lparr>core_number = 0, cache = \<lparr>mlc_core_id = 0, l1 = 0\<rparr>,
      pending_accesses = [(Read, 0)], stall_op = None, inst = [1 \<mapsto> (Write, 0)]\<rparr> Read 0
   \<and> map_sum id (\<lambda>m'. map stall_op (cores m'))
        (Core_tick 2 1
          \<lparr>caches = [], interconnect = Interconnect_init 5 4 (\<lambda>n. 0),
           cores = [\<lparr>core_number = 0, cache = \<lparr>mlc_core_id = 0, l1 = 0\<rparr>,
             pending_accesses = [(Read, 0)], stall_op = None, inst = [1 \<mapsto> (Write, 0)]\<rparr>]\<rparr> 0)
       = Inr [Some (Write, 0)]"
  using hazard_rule [where self = "\<lparr>core_number = 0, cache = \<lparr>mlc_core_id = 0, l1 = 0\<rparr>,
      pending_accesses = [(Read, 0)], stall_op = None, inst = [1 \<mapsto> (Write, 0)]\<rparr>"
      and op = Write and a = 0 and global_cycle = 1 and depth = 2 and core = 0
      and m = "\<lparr>caches = [], interconnect = Interconnect_init 5 4 (\<lambda>n. 0),
           cores = [\<lparr>core_number = 0, cache = \<lparr>mlc_core_id = 0, l1 = 0\<rparr>,
             pending_accesses = [(Read, 0)], stall_op = None, inst = [1 \<mapsto> (Write, 0)]\<rparr>]\<rparr>"]
  by auto

section \<open>Arbitration and timing of the controller\<close>

lemma py_get_nat: "i < length xs \<Longrightarrow> py_get xs (int i) = Inr (xs ! i)"
  by (simp add: py_get_def)

lemma py_set_nat: "i < length xs \<Longrightarrow> py_set xs (int i) v = Inr (xs[i := v])"
  by (simp add: py_set_def)

lemma get_bank_ok:
  assumes "0 < num_banks d"
  shows "get_bank d (addr req) = Inr (int (bank_of d req))" and "bank_of d req < nat (num_banks d)"
  using assms by (simp_all add: get_bank_def py_mod_def bank_of_def nat_less_iff)

lemma collect_candidates_eq:
  assumes "banks_ok c d"
  shows "collect_candidates c d q = Inr (map snd (filter (\<lambda>e. eligible c d (snd e)) q))"
proof (induction q)
  case Nil
  show ?case by simp
next
  case (Cons e q)
  obtain t req where e: "e = (t, req)" by (cases e)
  have b: "get_bank d (addr req) = Inr (int (bank_of d req))"
      "bank_of d req < length (bank_precharge_complete_time c)"
    using get_bank_ok [of d req] assms by (simp_all add: banks_ok_def ddr_ok_def)
  show ?case
    unfolding e using Cons.IH b
    by (simp add: py_get_nat eligible_def Let_def not_less split: option.splits)
qed

lemma keys_of_eq:
  assumes "banks_ok c d"
  shows "keys_of c d rs = Inr (map (arbitration_key c d) rs)"
proof (induction rs)
  case Nil
  show ?case by simp
next
  case (Cons r rs)
  have b: "get_bank d (addr r) = Inr (int (bank_of d r))"
      "bank_of d r < length (bank_open_row c)"
    using get_bank_ok [of d r] assms by (simp_all add: banks_ok_def ddr_ok_def)
  show ?case using Cons.IH b
    by (simp add: sort_key_of_def py_get_nat arbitration_key_def get_row_def row_of_def)
qed

lemma insort_key_decorated:
  "insort_key fst (f x, x) (map (\<lambda>y. (f y, y)) ys) = map (\<lambda>y. (f y, y)) (insort_key f x ys)"
  by (induction ys) simp_all

lemma sort_key_decorated:
  "sort_key fst (map (\<lambda>y. (f y, y)) xs) = map (\<lambda>y. (f y, y)) (sort_key f xs)"
  by (induction xs) (simp_all add: insort_key_decorated)

lemma sort_candidates_eq:
  assumes "banks_ok c d"
  shows "sort_candidates c d cands = Inr (sort_key (arbitration_key c d) cands)"
proof -
  have "zip (map (arbitration_key c d) cands) cands = map (\<lambda>y. (arbitration_key c d y, y)) cands"
    by (induction cands) simp_all
  then show ?thesis
    by (simp add: sort_candidates_def keys_of_eq [OF assms] sort_key_decorated comp_def)
qed

lemma sort_key_first:
  assumes "xs \<noteq> []"
  shows "sort_key f xs ! 0 \<in> set xs" and "\<forall>x \<in> set xs. f (sort_key f xs ! 0) \<le> f x"
proof -
  define ys where "ys = sort_key f xs"
  have s: "sorted (map f ys)" "set ys = set xs" "length ys = length xs"
    by (simp_all add: ys_def)
  with assms obtain y ys' where y: "ys = y # ys'" by (cases ys) auto
  with s(2) show "sort_key f xs ! 0 \<in> set xs" by (auto simp flip: ys_def)
  from y s(1) have "\<forall>x \<in> set ys. f y \<le> f x" by auto
  with y s(2) show "\<forall>x \<in> set xs. f (sort_key f xs ! 0) \<le> f x" by (simp flip: ys_def)
qed

lemma heapify_keeps:
  "length (heapify lt x) = length x" "mset (heapify lt x) = mset x"
proof -
  have "\<forall>i \<in> set is. i < length x \<Longrightarrow>
      length (foldl (\<lambda>h i. siftup lt h i) x is) = length x
      \<and> mset (foldl (\<lambda>h i. siftup lt h i) x is) = mset x" for "is"
  proof (induction "is" arbitrary: x)
    case Nil
    show ?case by simp
  next
    case (Cons i "is")
    then have i: "i < length x" by simp
    have "\<forall>j \<in> set is. j < length (siftup lt x i)"
      using Cons.prems siftup_keeps(1) [OF i, of lt] by simp
    from Cons.IH [OF this] siftup_keeps [OF i, of lt] show ?case by simp
  qed
  moreover have "\<forall>i \<in> set (rev [0..<length x div 2]). i < length x" by auto
  ultimately show "length (heapify lt x) = length x" "mset (heapify lt x) = mset x"
    by (simp_all add: heapify_def)
qed

lemma remove_request_keeps:
  assumes "best \<in> snd ` set q"
  shows "mset (map snd (remove_request best q)) = mset (map snd q) - {#best#}"
    and "Suc (length (remove_request best q)) = length q"
  using assms
proof (induction q)
  case Nil
  { case 1 then show ?case by simp }
  { case 2 then show ?case by simp }
next
  case (Cons e q)
  { case 1 then show ?case using Cons.IH(1) by (cases e) auto }
  { case 2 then show ?case using Cons.IH(2) by (cases e) auto }
qed


lemma bank_step_cases:
  assumes "bank < length (bank_states d)" "bank < length (bank_timers d)"
    "bank < length (ddr_bank_open_row d)"
  shows "bank_step d req (int bank) row st =
     Inr (if st = IDLE \<or> ddr_bank_open_row d ! bank \<noteq> Some row
          then d\<lparr>bank_states := (bank_states d)[bank := access_state (req_type req)],
                 bank_timers := (bank_timers d)[bank := completion_time req],
                 ddr_bank_open_row := (ddr_bank_open_row d)[bank := Some row]\<rparr>
          else if st = ACTIVATE_BANK_ROW \<or> st = access_state (req_type req)
          then d\<lparr>bank_states := (bank_states d)[bank := access_state (req_type req)],
                 bank_timers := (bank_timers d)[bank := completion_time req]\<rparr>
          else d)"
  using assms
  by (simp add: bank_step_def Let_def open_and_access_def keep_and_access_def py_get_nat py_set_nat)

lemma DDRMemory_request_ok:
  assumes "ddr_ok d"
  shows "\<exists>d'. DDRMemory_request d req = Inr d' \<and> ddr_ok d' \<and> num_banks d' = num_banks d
     \<and> scheduled_completions d' =
          heappush entry_lt (scheduled_completions d) (completion_time req, req)"
proof -
  have b: "get_bank d (addr req) = Inr (int (bank_of d req))"
    "bank_of d req < length (bank_states d)" "bank_of d req < length (bank_timers d)"
    "bank_of d req < length (ddr_bank_open_row d)"
    using get_bank_ok [of d req] assms by (simp_all add: ddr_ok_def)
  obtain d1 where d1: "bank_step d req (int (bank_of d req)) (get_row d (addr req))
        (bank_states d ! bank_of d req) = Inr d1"
      "ddr_ok d1" "num_banks d1 = num_banks d"
      "scheduled_completions d1 = scheduled_completions d"
    using assms unfolding bank_step_cases [OF b(2-4)] by (auto simp: ddr_ok_def)
  show ?thesis
    using d1 by (simp add: DDRMemory_request_def b py_get_nat ddr_ok_def)
qed

lemma row_delay_eq:
  assumes "bank < length (bank_open_row c)" "bank < length (bank_precharge_complete_time c)"
  shows "row_delay c d (int bank) row =
     Inr (if bank_open_row c ! bank = Some row then (row_hit_latency d, ''ROW HIT'', c)
          else (tRP c + tRCD c + tCAS c, ''ROW MISS'',
                c\<lparr>bank_precharge_complete_time :=
                     (bank_precharge_complete_time c)[bank := ctrl_cycle c + tRP c],
                   bank_open_row := (bank_open_row c)[bank := Some row]\<rparr>))"
  using assms by (simp add: row_delay_def py_get_nat py_set_nat)


lemma schedule_next_request_chosen:
  fixes c d
  defines "cands \<equiv> map snd (filter (\<lambda>e. eligible c d (snd e)) (ctrl_queue c))"
  defines "best \<equiv> sort_key (arbitration_key c d) cands ! 0"
  defines "bank \<equiv> bank_of d best"
  defines "row \<equiv> row_of best"
  defines "miss \<equiv> bank_open_row c ! bank \<noteq> Some row"
  defines "c1 \<equiv> (if miss
      then c\<lparr>bank_precharge_complete_time :=
               (bank_precharge_complete_time c)[bank := ctrl_cycle c + tRP c],
             bank_open_row := (bank_open_row c)[bank := Some row]\<rparr>
      else c)"
  defines "completion \<equiv> ctrl_cycle c
      + ((if miss then tRP c + tRCD c + tCAS c else row_hit_latency d)
         + transition_penalty c (int bank) (req_type best))"
  defines "issued \<equiv> best\<lparr>time := ctrl_cycle c, completion_time := completion\<rparr>"
  assumes ok: "banks_ok c d" and ne: "ctrl_queue c \<noteq> []" and cne: "cands \<noteq> []"
  shows "\<exists>d'. DDRMemory_request d issued = Inr d' \<and>
     schedule_next_request c d =
       Inr (c1\<lparr>last_command_time := (last_command_time c)(int bank \<mapsto> ctrl_cycle c),
               last_access_command := (last_access_command c)(int bank \<mapsto> req_type best),
               last_access_addr := (last_access_addr c)(int bank \<mapsto> addr best),
               ctrl_queue := heapify entry_lt (remove_request best (ctrl_queue c)),
               scheduled_ddr_requests := scheduled_ddr_requests c @
                 [\<lparr>info_request = issued, info_bank = int bank, info_row = row,
                   info_status = (if miss then ''ROW MISS'' else ''ROW HIT'')\<rparr>]\<rparr>, d')"
proof -
  have dok: "ddr_ok d" using ok by (simp add: banks_ok_def)
  obtain d' where d': "DDRMemory_request d issued = Inr d'"
    using DDRMemory_request_ok [OF dok, of issued] by blast
  have b: "get_bank d (addr best) = Inr (int bank)"
    "bank < length (bank_open_row c)" "bank < length (bank_precharge_complete_time c)"
    using get_bank_ok [of d best] ok by (simp_all add: banks_ok_def ddr_ok_def bank_def)
  have rd: "row_delay c d (int bank) row =
      Inr (if miss then tRP c + tRCD c + tCAS c else row_hit_latency d,
           if miss then ''ROW MISS'' else ''ROW HIT'', c1)"
    unfolding row_delay_eq [OF b(2,3)] by (simp add: miss_def c1_def)
  have tp: "transition_penalty c1 (int bank) k = transition_penalty c (int bank) k" for k
    by (simp add: transition_penalty_def c1_def split: option.splits)
  have cy: "ctrl_cycle c1 = ctrl_cycle c" "ctrl_queue c1 = ctrl_queue c"
    "scheduled_ddr_requests c1 = scheduled_ddr_requests c"
    "last_command_time c1 = last_command_time c"
    "last_access_command c1 = last_access_command c"
    "last_access_addr c1 = last_access_addr c"
    by (simp_all add: c1_def)
  have "schedule_next_request c d =
      and_then (DDRMemory_request d issued) (\<lambda>d'.
       Inr (c1\<lparr>last_command_time := (last_command_time c)(int bank \<mapsto> ctrl_cycle c),
               last_access_command := (last_access_command c)(int bank \<mapsto> req_type best),
               last_access_addr := (last_access_addr c)(int bank \<mapsto> addr best),
               ctrl_queue := heapify entry_lt (remove_request best (ctrl_queue c)),
               scheduled_ddr_requests := scheduled_ddr_requests c @
                 [\<lparr>info_request = issued, info_bank = int bank, info_row = row,
                   info_status = (if miss then ''ROW MISS'' else ''ROW HIT'')\<rparr>]\<rparr>, d'))"
    using ne cne
    unfolding schedule_next_request_def collect_candidates_eq [OF ok] sort_candidates_eq [OF ok]
    by (simp add: Let_def b(1) rd tp cy get_row_def
        flip: cands_def best_def row_of_def row_def issued_def completion_def)
  with d' show ?thesis by simp
qed



lemma schedule_next_request_result:
  fixes c d
  defines "cands \<equiv> map snd (filter (\<lambda>e. eligible c d (snd e)) (ctrl_queue c))"
  defines "best \<equiv> sort_key (arbitration_key c d) cands ! 0"
  defines "bank \<equiv> bank_of d best"
  defines "row \<equiv> row_of best"
  defines "miss \<equiv> bank_open_row c ! bank \<noteq> Some row"
  defines "completion \<equiv> ctrl_cycle c
      + ((if miss then tRP c + tRCD c + tCAS c else row_hit_latency d)
         + transition_penalty c (int bank) (req_type best))"
  defines "issued \<equiv> best\<lparr>time := ctrl_cycle c, completion_time := completion\<rparr>"
  assumes ok: "banks_ok c d" and ne: "ctrl_queue c \<noteq> []" and cne: "cands \<noteq> []"
  shows "\<exists>c' d'. schedule_next_request c d = Inr (c', d')
     \<and> DDRMemory_request d issued = Inr d'
     \<and> ctrl_queue c' = heapify entry_lt (remove_request best (ctrl_queue c))
     \<and> scheduled_ddr_requests c' = scheduled_ddr_requests c @
          [\<lparr>info_request = issued, info_bank = int bank, info_row = row,
            info_status = (if miss then ''ROW MISS'' else ''ROW HIT'')\<rparr>]
     \<and> bank_precharge_complete_time c' =
          (if miss then (bank_precharge_complete_time c)[bank := ctrl_cycle c + tRP c]
           else bank_precharge_complete_time c)
     \<and> bank_open_row c' =
          (if miss then (bank_open_row c)[bank := Some row] else bank_open_row c)
     \<and> last_command_time c' = (last_command_time c)(int bank \<mapsto> ctrl_cycle c)
     \<and> last_access_command c' = (last_access_command c)(int bank \<mapsto> req_type best)
     \<and> ctrl_cycle c' = ctrl_cycle c"
proof -
  from schedule_next_request_chosen [OF ok ne cne [unfolded cands_def]]
  obtain d' where "DDRMemory_request d issued = Inr d'"
    and "schedule_next_request c d =
       Inr ((if miss
      then c\<lparr>bank_precharge_complete_time :=
               (bank_precharge_complete_time c)[bank := ctrl_cycle c + tRP c],
             bank_open_row := (bank_open_row c)[bank := Some row]\<rparr>
      else c)\<lparr>last_command_time := (last_command_time c)(int bank \<mapsto> ctrl_cycle c),
               last_access_command := (last_access_command c)(int bank \<mapsto> req_type best),
               last_access_addr := (last_access_addr c)(int bank \<mapsto> addr best),
               ctrl_queue := heapify entry_lt (remove_request best (ctrl_queue c)),
               scheduled_ddr_requests := scheduled_ddr_requests c @
                 [\<lparr>info_request = issued, info_bank = int bank, info_row = row,
                   info_status = (if miss then ''ROW MISS'' else ''ROW HIT'')\<rparr>]\<rparr>, d')"
    unfolding cands_def best_def bank_def row_def miss_def completion_def issued_def
    by blast
  then show ?thesis by simp
qed


text \<open>
  C3. With well-formed bank tables and a non-empty queue, the candidates collected by
  \<^verbatim>\<open>_schedule_next_request\<close> are exactly the queued requests whose bank has
  \<^verbatim>\<open>bank_precharge_complete_time[bank] <= cycle\<close> and \<^verbatim>\<open>cycle >= last_command_time[bank]
  + tCCD\<close>. If there is none, nothing is scheduled and nothing changes. Otherwise exactly
  one request is scheduled: it is a candidate of least key (row hit, then read, then
  arrival time), it is the one request removed from the queue, and it is the one entry
  appended to \<^verbatim>\<open>scheduled_ddr_requests\<close>, with its time and completion time set.
\<close>

theorem arbitration_schedules_least_candidate:
  assumes "banks_ok c d" and "ctrl_queue c \<noteq> []"
  shows "collect_candidates c d (ctrl_queue c) =
           Inr (map snd (filter (\<lambda>e. eligible c d (snd e)) (ctrl_queue c)))
     \<and> (map snd (filter (\<lambda>e. eligible c d (snd e)) (ctrl_queue c)) = [] \<longrightarrow>
          schedule_next_request c d = Inr (c, d))
     \<and> (map snd (filter (\<lambda>e. eligible c d (snd e)) (ctrl_queue c)) \<noteq> [] \<longrightarrow>
          (\<exists>c' d' best info t.
             schedule_next_request c d = Inr (c', d')
             \<and> best \<in> snd ` {e \<in> set (ctrl_queue c). eligible c d (snd e)}
             \<and> (\<forall>e \<in> set (ctrl_queue c). eligible c d (snd e) \<longrightarrow>
                   arbitration_key c d best \<le> arbitration_key c d (snd e))
             \<and> mset (map snd (ctrl_queue c')) = mset (map snd (ctrl_queue c)) - {#best#}
             \<and> Suc (length (ctrl_queue c')) = length (ctrl_queue c)
             \<and> scheduled_ddr_requests c' = scheduled_ddr_requests c @ [info]
             \<and> info_request info = best\<lparr>time := ctrl_cycle c, completion_time := t\<rparr>))"
proof (intro conjI impI)
  define cands where "cands = map snd (filter (\<lambda>e. eligible c d (snd e)) (ctrl_queue c))"
  show cc: "collect_candidates c d (ctrl_queue c) =
      Inr (map snd (filter (\<lambda>e. eligible c d (snd e)) (ctrl_queue c)))"
    by (rule collect_candidates_eq [OF assms(1)])
  show "schedule_next_request c d = Inr (c, d)"
    if "map snd (filter (\<lambda>e. eligible c d (snd e)) (ctrl_queue c)) = []"
    using that by (simp add: schedule_next_request_def cc)
  assume cne: "map snd (filter (\<lambda>e. eligible c d (snd e)) (ctrl_queue c)) \<noteq> []"
  define best where "best = sort_key (arbitration_key c d) cands ! 0"
  from cne have cne': "cands \<noteq> []" by (simp add: cands_def)
  have bs: "best \<in> set cands" "\<forall>r \<in> set cands. arbitration_key c d best \<le> arbitration_key c d r"
    using sort_key_first [OF cne', of "arbitration_key c d"] by (simp_all add: best_def)
  have sc: "set cands = snd ` {e \<in> set (ctrl_queue c). eligible c d (snd e)}"
    by (auto simp: cands_def)
  from bs(1) sc have inq: "best \<in> snd ` set (ctrl_queue c)" by auto
  from schedule_next_request_result [OF assms cne]
  obtain c' d' info t where r: "schedule_next_request c d = Inr (c', d')"
      "ctrl_queue c' = heapify entry_lt (remove_request best (ctrl_queue c))"
      "scheduled_ddr_requests c' = scheduled_ddr_requests c @ [info]"
      "info_request info = best\<lparr>time := ctrl_cycle c, completion_time := t\<rparr>"
    unfolding cands_def [symmetric] best_def [symmetric]
    by (metis sched_info.select_convs(1))
  have q1: "mset (map snd (ctrl_queue c')) = mset (map snd (ctrl_queue c)) - {#best#}"
    unfolding r(2) mset_map heapify_keeps(2)
    using remove_request_keeps(1) [OF inq] by simp
  have q2: "Suc (length (ctrl_queue c')) = length (ctrl_queue c)"
    unfolding r(2) heapify_keeps(1) by (rule remove_request_keeps(2) [OF inq])
  have q3: "\<forall>e \<in> set (ctrl_queue c). eligible c d (snd e) \<longrightarrow>
      arbitration_key c d best \<le> arbitration_key c d (snd e)"
    using bs(2) sc by auto
  have q4: "best \<in> snd ` {e \<in> set (ctrl_queue c). eligible c d (snd e)}"
    using bs(1) sc by simp
  show "\<exists>c' d' best info t.
      schedule_next_request c d = Inr (c', d')
      \<and> best \<in> snd ` {e \<in> set (ctrl_queue c). eligible c d (snd e)}
      \<and> (\<forall>e \<in> set (ctrl_queue c). eligible c d (snd e) \<longrightarrow>
            arbitration_key c d best \<le> arbitration_key c d (snd e))
      \<and> mset (map snd (ctrl_queue c')) = mset (map snd (ctrl_queue c)) - {#best#}
      \<and> Suc (length (ctrl_queue c')) = length (ctrl_queue c)
      \<and> scheduled_ddr_requests c' = scheduled_ddr_requests c @ [info]
      \<and> info_request info = best\<lparr>time := ctrl_cycle c, completion_time := t\<rparr>"
    apply (rule exI [of _ c'], rule exI [of _ d'], rule exI [of _ best])
    apply (rule exI [of _ info], rule exI [of _ t])
    using r(1,3,4) q1 q2 q3 q4 by (intro conjI) assumption+
qed


theorem arbitration_schedules_least_candidate_witness:
  "banks_ok example_controller example_ddr \<and> ctrl_queue example_controller \<noteq> []
   \<and> map snd (filter (\<lambda>e. eligible example_controller example_ddr (snd e))
         (ctrl_queue example_controller)) = [example_write, example_read]
   \<and> (\<exists>c' d' t. schedule_next_request example_controller example_ddr = Inr (c', d')
         \<and> map info_request (scheduled_ddr_requests c')
             = [example_read\<lparr>time := 10, completion_time := t\<rparr>]
         \<and> mset (map snd (ctrl_queue c')) = {#example_write#})"
proof -
  have ok: "banks_ok example_controller example_ddr"
    by (simp add: banks_ok_def ddr_ok_def example_controller_def example_ddr_def
        DDRMemoryController_init_def DDRMemory_init_def)
  have ne: "ctrl_queue example_controller \<noteq> []"
    by (simp add: example_controller_def)
  have el: "eligible example_controller example_ddr example_write"
      "eligible example_controller example_ddr example_read"
    by (simp_all add: eligible_def bank_of_def example_controller_def example_ddr_def
        DDRMemoryController_init_def DDRMemory_init_def example_write_def example_read_def
        MemoryRequest_init_def)
  have q: "ctrl_queue example_controller = [(0, example_write), (1, example_read)]"
      "scheduled_ddr_requests example_controller = []" "ctrl_cycle example_controller = 10"
    by (simp_all add: example_controller_def DDRMemoryController_init_def)
  have cands: "map snd (filter (\<lambda>e. eligible example_controller example_ddr (snd e))
      (ctrl_queue example_controller)) = [example_write, example_read]"
    by (simp add: q el)
  have keys: "arbitration_key example_controller example_ddr example_write = (1, 1, 0)"
      "arbitration_key example_controller example_ddr example_read = (1, 0, 1)"
    by (simp_all add: arbitration_key_def bank_of_def row_of_def example_controller_def
        example_ddr_def DDRMemoryController_init_def DDRMemory_init_def example_write_def
        example_read_def MemoryRequest_init_def)
  have neq: "example_write \<noteq> example_read"
    by (simp add: example_write_def example_read_def MemoryRequest_init_def)
  have cne: "map snd (filter (\<lambda>e. eligible example_controller example_ddr (snd e))
      (ctrl_queue example_controller)) \<noteq> []"
    unfolding cands by simp
  from arbitration_schedules_least_candidate [OF ok ne, THEN conjunct2, THEN conjunct2,
      THEN mp, OF cne]
  obtain c' d' best info t where r:
      "schedule_next_request example_controller example_ddr = Inr (c', d')"
      "best \<in> snd ` {e \<in> set (ctrl_queue example_controller).
          eligible example_controller example_ddr (snd e)}"
      "\<forall>e \<in> set (ctrl_queue example_controller).
          eligible example_controller example_ddr (snd e) \<longrightarrow>
          arbitration_key example_controller example_ddr best
            \<le> arbitration_key example_controller example_ddr (snd e)"
      "mset (map snd (ctrl_queue c')) = mset (map snd (ctrl_queue example_controller)) - {#best#}"
      "scheduled_ddr_requests c' = scheduled_ddr_requests example_controller @ [info]"
      "info_request info = best\<lparr>time := ctrl_cycle example_controller, completion_time := t\<rparr>"
    by blast
  from r(2) have "best = example_write \<or> best = example_read" by (auto simp: q)
  moreover from r(3) el have "arbitration_key example_controller example_ddr best \<le> (1, 0, 1)"
    by (simp add: q keys)
  ultimately have best: "best = example_read" by (auto simp: keys)
  have f1: "map info_request (scheduled_ddr_requests c')
      = [example_read\<lparr>time := 10, completion_time := t\<rparr>]"
    by (simp add: r(5) r(6) q best)
  have f2: "mset (map snd (ctrl_queue c')) = {#example_write#}"
    unfolding r(4) q best using neq by simp
  have "\<exists>c' d' t. schedule_next_request example_controller example_ddr = Inr (c', d')
      \<and> map info_request (scheduled_ddr_requests c')
          = [example_read\<lparr>time := 10, completion_time := t\<rparr>]
      \<and> mset (map snd (ctrl_queue c')) = {#example_write#}"
    by (rule exI [of _ c'], rule exI [of _ d'], rule exI [of _ t]) (intro conjI r(1) f1 f2)
  with ok ne cands show ?thesis by (intro conjI)
qed

text \<open>
  C4. When the controller schedules a request whose bank does not have the request's row
  open (another row, or none), the completion time is \<open>tRP + tRCD + tCAS\<close> after the
  current cycle, plus \<open>tWR\<close> when the last access to the bank was a write and the request
  is a read, plus \<open>tWR + 2\<close> when it was a read and the request is a write; the bank's
  precharge completes at \<open>cycle + tRP\<close> and its open row becomes the request's row.
\<close>

theorem row_miss_completion_time:
  assumes "banks_ok c d"
    and "schedule_next_request c d = Inr (c', d')"
    and "scheduled_ddr_requests c' = scheduled_ddr_requests c @ [info]"
    and "bank_open_row c ! nat (info_bank info) \<noteq> Some (info_row info)"
  shows "completion_time (info_request info) - ctrl_cycle c =
           tRP c + tRCD c + tCAS c
           + (case last_access_command c (info_bank info) of
                None \<Rightarrow> 0
              | Some k \<Rightarrow>
                  if k = Write \<and> req_type (info_request info) = Read then tWR c
                  else if k = Read \<and> req_type (info_request info) = Write then tWR c + 2
                  else 0)
     \<and> bank_precharge_complete_time c' ! nat (info_bank info) = ctrl_cycle c + tRP c
     \<and> bank_open_row c' ! nat (info_bank info) = Some (info_row info)
     \<and> info_bank info = addr (info_request info) mod num_banks d
     \<and> info_row info = addr (info_request info) div 16"
proof -
  define cands where "cands = map snd (filter (\<lambda>e. eligible c d (snd e)) (ctrl_queue c))"
  define best where "best = sort_key (arbitration_key c d) cands ! 0"
  define bank where "bank = bank_of d best"
  define row where "row = row_of best"
  define miss where "miss \<longleftrightarrow> bank_open_row c ! bank \<noteq> Some row"
  define completion where "completion = ctrl_cycle c
      + ((if miss then tRP c + tRCD c + tCAS c else row_hit_latency d)
         + transition_penalty c (int bank) (req_type best))"
  define issued where "issued = best\<lparr>time := ctrl_cycle c, completion_time := completion\<rparr>"
  have cc: "collect_candidates c d (ctrl_queue c) = Inr cands"
    unfolding cands_def by (rule collect_candidates_eq [OF assms(1)])
  have ne: "ctrl_queue c \<noteq> []" "cands \<noteq> []"
    using assms(2,3) cc by (auto simp: schedule_next_request_def split: if_splits)
  have bl: "bank < length (bank_open_row c)"
    "bank < length (bank_precharge_complete_time c)" "0 < num_banks d"
    using get_bank_ok(2) [of d best] assms(1) by (simp_all add: banks_ok_def ddr_ok_def bank_def)
  from schedule_next_request_result [OF assms(1) ne(1) ne(2) [unfolded cands_def]]
  obtain c2 d2 where r: "schedule_next_request c d = Inr (c2, d2)"
      "scheduled_ddr_requests c2 = scheduled_ddr_requests c @
          [\<lparr>info_request = issued, info_bank = int bank, info_row = row,
            info_status = (if miss then ''ROW MISS'' else ''ROW HIT'')\<rparr>]"
      "bank_precharge_complete_time c2 =
          (if miss then (bank_precharge_complete_time c)[bank := ctrl_cycle c + tRP c]
           else bank_precharge_complete_time c)"
      "bank_open_row c2 =
          (if miss then (bank_open_row c)[bank := Some row] else bank_open_row c)"
    unfolding cands_def [symmetric] best_def [symmetric] bank_def [symmetric]
      row_def [symmetric] miss_def [symmetric] completion_def [symmetric] issued_def [symmetric]
    by blast
  from r(1) assms(2) have c2: "c2 = c'" by simp
  from r(2) assms(3) have info: "info = \<lparr>info_request = issued, info_bank = int bank,
      info_row = row, info_status = (if miss then ''ROW MISS'' else ''ROW HIT'')\<rparr>"
    by (simp add: c2)
  have ib: "info_bank info = int bank" "info_row info = row" "info_request info = issued"
    by (simp_all add: info)
  from assms(4) have m: miss by (simp add: ib miss_def)
  have t1: "completion_time (info_request info) - ctrl_cycle c =
      tRP c + tRCD c + tCAS c + transition_penalty c (int bank) (req_type best)"
    using m by (simp add: ib issued_def completion_def)
  have t2: "req_type (info_request info) = req_type best" "addr (info_request info) = addr best"
    by (simp_all add: ib issued_def)
  have t3: "int bank = addr best mod num_banks d"
    using bl(3) by (simp add: bank_def bank_of_def)
  have nb: "nat (info_bank info) = bank" by (simp add: ib)
  have g1: "completion_time (info_request info) - ctrl_cycle c =
      tRP c + tRCD c + tCAS c
      + (case last_access_command c (info_bank info) of
           None \<Rightarrow> 0
         | Some k \<Rightarrow>
             if k = Write \<and> req_type (info_request info) = Read then tWR c
             else if k = Read \<and> req_type (info_request info) = Write then tWR c + 2
             else 0)"
    unfolding t1 t2 ib(1) by (simp add: transition_penalty_def)
  have g2: "bank_precharge_complete_time c' ! nat (info_bank info) = ctrl_cycle c + tRP c"
    unfolding nb using r(3) m bl(2) by (simp add: c2)
  have g3: "bank_open_row c' ! nat (info_bank info) = Some (info_row info)"
    unfolding nb using r(4) m bl(1) by (simp add: c2 ib(2))
  have g4: "info_bank info = addr (info_request info) mod num_banks d"
    unfolding t2 ib(1) by (rule t3)
  have g5: "info_row info = addr (info_request info) div 16"
    unfolding t2 ib(2) by (simp add: row_def row_of_def)
  from g1 g2 g3 g4 g5 show ?thesis by (intro conjI)
qed

theorem row_miss_completion_time_witness:
  "\<exists>c' d' info. banks_ok example_controller example_ddr
     \<and> schedule_next_request example_controller example_ddr = Inr (c', d')
     \<and> scheduled_ddr_requests c' = scheduled_ddr_requests example_controller @ [info]
     \<and> bank_open_row example_controller ! nat (info_bank info) \<noteq> Some (info_row info)
     \<and> completion_time (info_request info) - 10 = 45
     \<and> bank_precharge_complete_time c' ! nat (info_bank info) = 25
     \<and> bank_open_row c' ! nat (info_bank info) = Some (info_row info)"
proof -
  have ok: "banks_ok example_controller example_ddr"
    by (simp add: banks_ok_def ddr_ok_def example_controller_def example_ddr_def
        DDRMemoryController_init_def DDRMemory_init_def)
  have ne: "ctrl_queue example_controller \<noteq> []"
    by (simp add: example_controller_def)
  have el: "eligible example_controller example_ddr example_write"
    by (simp add: eligible_def bank_of_def example_controller_def example_ddr_def
        DDRMemoryController_init_def DDRMemory_init_def example_write_def MemoryRequest_init_def)
  have cne: "map snd (filter (\<lambda>e. eligible example_controller example_ddr (snd e))
      (ctrl_queue example_controller)) \<noteq> []"
    using el by (simp add: example_controller_def DDRMemoryController_init_def)
  from schedule_next_request_result [OF ok ne cne]
  obtain c' d' info where r:
      "schedule_next_request example_controller example_ddr = Inr (c', d')"
      "scheduled_ddr_requests c' = scheduled_ddr_requests example_controller @ [info]"
    by blast
  have par: "tRP example_controller = 15" "tRCD example_controller = 15"
      "tCAS example_controller = 15" "ctrl_cycle example_controller = 10"
      "last_access_command example_controller = Map.empty"
      "bank_open_row example_controller = replicate 4 None" "num_banks example_ddr = 4"
    by (simp_all add: example_controller_def example_ddr_def DDRMemoryController_init_def
        DDRMemory_init_def)
  have cc: "collect_candidates example_controller example_ddr (ctrl_queue example_controller)
      = Inr (map snd (filter (\<lambda>e. eligible example_controller example_ddr (snd e))
          (ctrl_queue example_controller)))"
    by (rule collect_candidates_eq [OF ok])
  have "0 \<le> info_bank info \<and> info_bank info < 4"
    using r ne cne cc
    by (auto simp: schedule_next_request_def and_then_Inr get_bank_def py_mod_def par Let_def
        split: if_splits prod.splits)
  then have "nat (info_bank info) < 4" by linarith
  then have miss: "bank_open_row example_controller ! nat (info_bank info) \<noteq> Some (info_row info)"
    by (simp add: par)
  note th = row_miss_completion_time [OF ok r(1) r(2) miss]
  have a: "completion_time (info_request info) - 10 = 45"
    using th [THEN conjunct1] by (simp add: par)
  have b: "bank_precharge_complete_time c' ! nat (info_bank info) = 25"
    using th [THEN conjunct2, THEN conjunct1] by (simp add: par)
  have c: "bank_open_row c' ! nat (info_bank info) = Some (info_row info)"
    using th [THEN conjunct2, THEN conjunct2, THEN conjunct1] .
  show ?thesis
    by (rule exI [of _ c'], rule exI [of _ d'], rule exI [of _ info])
      (intro conjI ok r miss a b c)
qed

section \<open>Bandwidth of the interconnect\<close>

lemma heappop_head:
  assumes "q \<noteq> []"
  shows "\<exists>q'. heappop lt q = Inr (q ! 0, q')"
proof (cases "butlast q = []")
  case True
  with assms have "q = [last q]" by (metis append_butlast_last_id append_Nil)
  then have "last q = q ! 0" by (metis nth_Cons_0)
  with True assms show ?thesis by (simp add: heappop_def Let_def)
next
  case False
  then have "butlast q ! 0 = q ! 0"
    by (simp add: nth_butlast del: length_butlast)
  with False assms show ?thesis by (simp add: heappop_def Let_def)
qed

lemma pop_ready_result:
  "\<exists>q' popped. pop_ready cyc bw q acc n = Inr (q', acc @ map snd popped)
     \<and> mset q = mset popped + mset q'
     \<and> (\<forall>e \<in> set popped. fst e \<le> cyc)
     \<and> (popped \<noteq> [] \<longrightarrow> n + int (length popped) \<le> bw)
     \<and> (q' = [] \<or> cyc < fst (q' ! 0) \<or> bw \<le> n + int (length popped))"
proof (induction cyc bw q acc n rule: pop_ready.induct)
  case (1 cyc bw q acc n)
  show ?case
  proof (cases "q \<noteq> [] \<and> fst (q ! 0) \<le> cyc \<and> n < bw")
    case True
    then obtain q1 where hp: "heappop entry_lt q = Inr (q ! 0, q1)"
      using heappop_head [of q entry_lt] by blast
    from "1.IH" [OF True hp refl]
    obtain q' popped where ih: "pop_ready cyc bw q1 (acc @ [snd (q ! 0)]) (n + 1)
          = Inr (q', (acc @ [snd (q ! 0)]) @ map snd popped)"
        "mset q1 = mset popped + mset q'"
        "\<forall>e \<in> set popped. fst e \<le> cyc"
        "popped \<noteq> [] \<longrightarrow> n + 1 + int (length popped) \<le> bw"
        "q' = [] \<or> cyc < fst (q' ! 0) \<or> bw \<le> n + 1 + int (length popped)"
      by blast
    have step: "pop_ready cyc bw q acc n = pop_ready cyc bw q1 (acc @ [snd (q ! 0)]) (n + 1)"
      using True hp by (subst pop_ready.simps) simp
    have m: "mset q = mset (q ! 0 # popped) + mset q'"
      using heappop_keeps(2) [OF hp] ih(2) by simp
    have "pop_ready cyc bw q acc n = Inr (q', acc @ map snd (q ! 0 # popped))"
      using step ih(1) by simp
    moreover have "\<forall>e \<in> set (q ! 0 # popped). fst e \<le> cyc"
      using True ih(3) by simp
    moreover have "n + int (length (q ! 0 # popped)) \<le> bw"
      using True ih(4) by (cases "popped = []") simp_all
    moreover have "q' = [] \<or> cyc < fst (q' ! 0) \<or> bw \<le> n + int (length (q ! 0 # popped))"
      using ih(5) by (auto simp: algebra_simps)
    ultimately show ?thesis using m by blast
  next
    case False
    then have "pop_ready cyc bw q acc n = Inr (q, acc @ map snd [])"
      by (subst pop_ready.simps) auto
    moreover from False have "q = [] \<or> cyc < fst (q ! 0) \<or> bw \<le> n + int (length ([] :: (int \<times> MemoryRequest) list))"
      by auto
    ultimately show ?thesis
      by (intro exI [of _ q] exI [of _ "[]"]) simp
  qed
qed

lemma forward_all_keeps:
  "mset (map snd (ctrl_queue (foldl Controller_request c rs)))
     = mset (map snd (ctrl_queue c)) + mset rs"
proof (induction rs arbitrary: c)
  case Nil
  show ?case by simp
next
  case (Cons r rs)
  have "mset (map snd (ctrl_queue (Controller_request c r)))
      = add_mset r (mset (map snd (ctrl_queue c)))"
    by (simp add: Controller_request_def heappush_keeps(2))
  with Cons.IH [of "Controller_request c r"] show ?case by simp
qed

text \<open>
  C6. A tick of the interconnect always returns. The entries it pops are at most
  \<^verbatim>\<open>bandwidth\<close> many, each has \<^verbatim>\<open>ready_time <= cycle\<close>, and they are what reaches the
  queue of the controller; every other entry is still queued. The loop stops only when the
  queue is empty, its first entry is not ready, or \<^verbatim>\<open>bandwidth\<close> entries were popped.
\<close>

theorem interconnect_tick_bandwidth:
  "\<exists>ic' c' popped. Interconnect_tick ic c = Inr (ic', c')
     \<and> mset (ic_queue ic) = mset popped + mset (ic_queue ic')
     \<and> int (length popped) \<le> max 0 (bandwidth ic)
     \<and> (\<forall>e \<in> set popped. fst e \<le> ic_cycle ic)
     \<and> mset (map snd (ctrl_queue c')) = mset (map snd (ctrl_queue c)) + mset (map snd popped)
     \<and> (ic_queue ic' = [] \<or> ic_cycle ic < fst (ic_queue ic' ! 0)
          \<or> bandwidth ic \<le> int (length popped))
     \<and> ic_cycle ic' = ic_cycle ic + 1"
proof -
  from pop_ready_result [of "ic_cycle ic" "bandwidth ic" "ic_queue ic" "[]" 0]
  obtain q' popped where r: "pop_ready (ic_cycle ic) (bandwidth ic) (ic_queue ic) [] 0
        = Inr (q', map snd popped)"
      "mset (ic_queue ic) = mset popped + mset q'"
      "\<forall>e \<in> set popped. fst e \<le> ic_cycle ic"
      "popped \<noteq> [] \<longrightarrow> int (length popped) \<le> bandwidth ic"
      "q' = [] \<or> ic_cycle ic < fst (q' ! 0) \<or> bandwidth ic \<le> int (length popped)"
    by auto
  define ic' where "ic' = ic\<lparr>ic_queue := q', ic_cycle := ic_cycle ic + 1\<rparr>"
  define c' where "c' = foldl Controller_request c (map snd popped)"
  have t: "Interconnect_tick ic c = Inr (ic', c')"
    by (simp add: Interconnect_tick_def r(1) ic'_def c'_def)
  have b: "int (length popped) \<le> max 0 (bandwidth ic)"
    using r(4) by (cases "popped = []") simp_all
  have f: "mset (map snd (ctrl_queue c')) = mset (map snd (ctrl_queue c)) + mset (map snd popped)"
    unfolding c'_def by (rule forward_all_keeps)
  have q: "ic_queue ic' = q'" "ic_cycle ic' = ic_cycle ic + 1" by (simp_all add: ic'_def)
  show ?thesis
    apply (rule exI [of _ ic'], rule exI [of _ c'], rule exI [of _ popped])
    unfolding q using t r(2) b r(3) f r(5) by (intro conjI) simp_all
qed


theorem interconnect_tick_bandwidth_witness:
  "\<exists>ic' c' popped. Interconnect_tick example_interconnect example_controller = Inr (ic', c')
     \<and> mset (ic_queue example_interconnect) = mset popped + mset (ic_queue ic')
     \<and> int (length popped) \<le> 2
     \<and> (\<forall>e \<in> set popped. fst e \<le> 6)
     \<and> mset (map snd (ctrl_queue c'))
         = mset (map snd (ctrl_queue example_controller)) + mset (map snd popped)
     \<and> (ic_queue ic' = [] \<or> 6 < fst (ic_queue ic' ! 0) \<or> 2 \<le> int (length popped))
     \<and> ic_cycle ic' = 7"
  using interconnect_tick_bandwidth [of example_interconnect example_controller]
  by (simp add: example_interconnect_def Interconnect_init_def)

section \<open>Completion of requests that a bank rejects\<close>

lemma complete_loop_eq:
  "complete_loop depth cyc infos m =
     and_then (invoke_all depth m (due_callbacks cyc infos))
       (\<lambda>m'. Inr (filter (\<lambda>i. completion_time (info_request i) \<le> cyc) infos, m'))"
proof (induction infos arbitrary: m)
  case Nil
  show ?case by simp
next
  case (Cons i infos)
  show ?case
  proof (cases "completion_time (info_request i) \<le> cyc")
    case False
    then show ?thesis using Cons.IH [of m] by simp
  next
    case True
    show ?thesis
    proof (cases "req_type (info_request i) = Read \<and> callback (info_request i) \<noteq> None")
      case r: True
      then obtain cb where cb: "callback (info_request i) = Some cb" by auto
      show ?thesis
      proof (cases "invoke depth m cb")
        case (Inl e)
        with True r cb show ?thesis by (simp add: Let_def)
      next
        case (Inr m1)
        with True r cb Cons.IH [of m1] show ?thesis
          by (cases "invoke_all depth m1 (due_callbacks cyc infos)") (simp_all add: Let_def)
      qed
    next
      case r: False
      then have step: "(case req_type (info_request i) of
            Read \<Rightarrow> (case callback (info_request i) of
                         Some cb \<Rightarrow> invoke depth m cb | None \<Rightarrow> Inr m)
          | Write \<Rightarrow> Inr m) = Inr m"
        by (auto split: req_type.splits option.splits)
      from r have due: "due_callbacks cyc (i # infos) = due_callbacks cyc infos"
        by (auto split: option.splits)
      show ?thesis
        unfolding due using True Cons.IH [of m]
        by (cases "invoke_all depth m (due_callbacks cyc infos)") (simp_all add: Let_def step)
    qed
  qed
qed

lemma due_callbacks_mem:
  "info \<in> set infos \<Longrightarrow> completion_time (info_request info) \<le> cyc \<Longrightarrow>
   req_type (info_request info) = Read \<Longrightarrow> callback (info_request info) = Some cb \<Longrightarrow>
   cb \<in> set (due_callbacks cyc infos)"
  by (induction infos) (auto split: option.splits)

lemma rejected_request:
  assumes "ddr_ok d" and "rejected d req"
  shows "DDRMemory_request d req =
     Inr (d\<lparr>scheduled_completions :=
              heappush entry_lt (scheduled_completions d) (completion_time req, req)\<rparr>)"
proof -
  have b: "get_bank d (addr req) = Inr (int (bank_of d req))"
    "bank_of d req < length (bank_states d)" "bank_of d req < length (bank_timers d)"
    "bank_of d req < length (ddr_bank_open_row d)"
    using get_bank_ok [of d req] assms(1) by (simp_all add: ddr_ok_def)
  show ?thesis
    using assms(2)
    by (simp add: DDRMemory_request_def b py_get_nat bank_step_cases [OF b(2-4)]
        rejected_def get_row_def row_of_def)
qed

lemma schedule_passes_to_ddr:
  assumes "banks_ok c d"
    and "schedule_next_request c d = Inr (c', d')"
    and "scheduled_ddr_requests c' = scheduled_ddr_requests c @ [info]"
  shows "DDRMemory_request d (info_request info) = Inr d'"
proof -
  have cc: "collect_candidates c d (ctrl_queue c)
      = Inr (map snd (filter (\<lambda>e. eligible c d (snd e)) (ctrl_queue c)))"
    by (rule collect_candidates_eq [OF assms(1)])
  have ne: "ctrl_queue c \<noteq> []"
    "map snd (filter (\<lambda>e. eligible c d (snd e)) (ctrl_queue c)) \<noteq> []"
    using assms(2,3) cc by (auto simp: schedule_next_request_def split: if_splits)
  from schedule_next_request_result [OF assms(1) ne]
  obtain c2 d2 issued b r st where r: "schedule_next_request c d = Inr (c2, d2)"
      "DDRMemory_request d issued = Inr d2"
      "scheduled_ddr_requests c2 = scheduled_ddr_requests c @
          [\<lparr>info_request = issued, info_bank = b, info_row = r, info_status = st\<rparr>]"
    by blast
  from r(1) assms(2) have e: "c2 = c'" "d2 = d'" by simp_all
  from r(3) assms(3) have "info_request info = issued" by (auto simp: e)
  with r(2) e show ?thesis by simp
qed


lemma busy_schedule:
  "map_sum id (scheduled_ddr_requests \<circ> fst) (schedule_next_request busy_controller busy_ddr)
     = Inr [\<lparr>info_request = issued_read, info_bank = 0, info_row = 0, info_status = ''ROW HIT''\<rparr>]"
  "rejected busy_ddr issued_read"
  by code_simp+

text \<open>
  C2 as stated fails. The controller passes the read of address 0 to bank 0, which is
  WRITING with row 0 open: the DDR takes the error branch and leaves the bank as it is,
  but the request is on \<^verbatim>\<open>scheduled_completions\<close> and in \<^verbatim>\<open>scheduled_ddr_requests\<close>, and
  the drain of the controller at cycle 25 invokes its callback, which removes the pending
  read of core 0.
\<close>

theorem rejected_request_is_completed:
  "map_sum id (scheduled_ddr_requests \<circ> fst) (schedule_next_request busy_controller busy_ddr)
     = Inr [\<lparr>info_request = issued_read, info_bank = 0, info_row = 0, info_status = ''ROW HIT''\<rparr>]
   \<and> rejected busy_ddr issued_read
   \<and> map_sum id bank_states (DDRMemory_request busy_ddr issued_read)
       = Inr [WRITING, IDLE, IDLE, IDLE]
   \<and> map_sum id scheduled_completions (DDRMemory_request busy_ddr issued_read)
       = Inr [(25, issued_read)]
   \<and> callback issued_read = Some (DequeueAccess 0 0)
   \<and> map pending_accesses (cores waiting_machine) = [[(Read, 0)]]
   \<and> map_sum id (map pending_accesses \<circ> cores \<circ> snd)
        (complete_ddr_requests 1 draining_controller waiting_machine) = Inr [[]]"
  by code_simp

text \<open>
  C2, amended. When the controller schedules a request that the DDR bank rejects (the row
  of the request is open and the bank is neither IDLE, nor in ACTIVATE_BANK_ROW, nor in
  the access state of the request's kind), \<^verbatim>\<open>DDRMemory.request\<close> changes nothing of the
  bank and still pushes the request onto \<^verbatim>\<open>scheduled_completions\<close>. The request is
  recorded in \<^verbatim>\<open>scheduled_ddr_requests\<close>, and a completion drain of the controller
  invokes the callbacks of all recorded reads whose completion time has come, the callback
  of this request among them.
\<close>

theorem rejected_request_still_completes:
  assumes "banks_ok c d"
    and "schedule_next_request c d = Inr (c', d')"
    and "scheduled_ddr_requests c' = scheduled_ddr_requests c @ [info]"
    and "rejected d (info_request info)"
  shows "d' = d\<lparr>scheduled_completions := heappush entry_lt (scheduled_completions d)
                  (completion_time (info_request info), info_request info)\<rparr>
     \<and> (\<forall>c2 m depth cb.
           info \<in> set (scheduled_ddr_requests c2)
           \<and> completion_time (info_request info) \<le> ctrl_cycle c2
           \<and> req_type (info_request info) = Read
           \<and> callback (info_request info) = Some cb
           \<longrightarrow> cb \<in> set (due_callbacks (ctrl_cycle c2) (scheduled_ddr_requests c2))
               \<and> complete_ddr_requests depth c2 m =
                   and_then (invoke_all depth m
                       (due_callbacks (ctrl_cycle c2) (scheduled_ddr_requests c2)))
                     (\<lambda>m'. Inr (c2\<lparr>scheduled_ddr_requests :=
                                   foldl (\<lambda>l req_info. remove1 req_info l)
                                     (scheduled_ddr_requests c2)
                                     (filter (\<lambda>i. completion_time (info_request i) \<le> ctrl_cycle c2)
                                        (scheduled_ddr_requests c2))\<rparr>, m')))"
proof (intro conjI allI impI)
  have dok: "ddr_ok d" using assms(1) by (simp add: banks_ok_def)
  from schedule_passes_to_ddr [OF assms(1-3)] rejected_request [OF dok assms(4)]
  show "d' = d\<lparr>scheduled_completions := heappush entry_lt (scheduled_completions d)
                  (completion_time (info_request info), info_request info)\<rparr>"
    by simp
next
  fix c2 :: DDRMemoryController and m :: machine and depth :: nat and cb :: callback
  assume h: "info \<in> set (scheduled_ddr_requests c2)
      \<and> completion_time (info_request info) \<le> ctrl_cycle c2
      \<and> req_type (info_request info) = Read
      \<and> callback (info_request info) = Some cb"
  then show "cb \<in> set (due_callbacks (ctrl_cycle c2) (scheduled_ddr_requests c2))"
    by (elim conjE) (rule due_callbacks_mem)
  show "complete_ddr_requests depth c2 m =
      and_then (invoke_all depth m (due_callbacks (ctrl_cycle c2) (scheduled_ddr_requests c2)))
        (\<lambda>m'. Inr (c2\<lparr>scheduled_ddr_requests :=
                      foldl (\<lambda>l req_info. remove1 req_info l)
                        (scheduled_ddr_requests c2)
                        (filter (\<lambda>i. completion_time (info_request i) \<le> ctrl_cycle c2)
                           (scheduled_ddr_requests c2))\<rparr>, m'))"
    unfolding complete_ddr_requests_def complete_loop_eq
    by (cases "invoke_all depth m (due_callbacks (ctrl_cycle c2) (scheduled_ddr_requests c2))")
      simp_all
qed


theorem rejected_request_still_completes_witness:
  "\<exists>c' d' info. banks_ok busy_controller busy_ddr
     \<and> schedule_next_request busy_controller busy_ddr = Inr (c', d')
     \<and> scheduled_ddr_requests c' = scheduled_ddr_requests busy_controller @ [info]
     \<and> rejected busy_ddr (info_request info)
     \<and> info_request info = issued_read
     \<and> bank_states d' = [WRITING, IDLE, IDLE, IDLE]
     \<and> mset (scheduled_completions d') = {#(25, issued_read)#}
     \<and> DequeueAccess 0 0 \<in> set (due_callbacks 25 (scheduled_ddr_requests c'))"
proof -
  have ok: "banks_ok busy_controller busy_ddr"
    by (simp add: banks_ok_def ddr_ok_def busy_controller_def busy_ddr_def example_ddr_def
        DDRMemoryController_init_def DDRMemory_init_def)
  obtain r where r: "schedule_next_request busy_controller busy_ddr = Inr r"
      "scheduled_ddr_requests (fst r) = [\<lparr>info_request = issued_read, info_bank = 0,
          info_row = 0, info_status = ''ROW HIT''\<rparr>]"
    using busy_schedule(1)
    by (cases "schedule_next_request busy_controller busy_ddr") auto
  define info where "info = \<lparr>info_request = issued_read, info_bank = 0,
          info_row = 0, info_status = ''ROW HIT''\<rparr>"
  obtain c' d' where cd: "r = (c', d')" by (cases r)
  have s: "schedule_next_request busy_controller busy_ddr = Inr (c', d')"
    using r(1) cd by simp
  have a: "scheduled_ddr_requests c' = scheduled_ddr_requests busy_controller @ [info]"
    using r(2) cd by (simp add: info_def busy_controller_def DDRMemoryController_init_def)
  have ir: "info_request info = issued_read" by (simp add: info_def)
  have rej: "rejected busy_ddr (info_request info)"
    unfolding ir by (rule busy_schedule(2))
  have cb: "callback issued_read = Some (DequeueAccess 0 0)" "req_type issued_read = Read"
      "completion_time issued_read = 25"
    by (simp_all add: issued_read_def example_read_def MemoryRequest_init_def)
  note th = rejected_request_still_completes [OF ok s a rej]
  have d': "bank_states d' = [WRITING, IDLE, IDLE, IDLE]"
    unfolding th [THEN conjunct1] by (simp add: busy_ddr_def)
  have sc: "mset (scheduled_completions d') = {#(25, issued_read)#}"
    unfolding th [THEN conjunct1]
    by (simp add: heappush_keeps(2) ir cb busy_ddr_def example_ddr_def DDRMemory_init_def)
  have "info \<in> set (scheduled_ddr_requests (c'\<lparr>ctrl_cycle := 25\<rparr>))
      \<and> completion_time (info_request info) \<le> ctrl_cycle (c'\<lparr>ctrl_cycle := 25\<rparr>)
      \<and> req_type (info_request info) = Read
      \<and> callback (info_request info) = Some (DequeueAccess 0 0)"
    by (simp add: a ir cb)
  with th [THEN conjunct2, rule_format, of "c'\<lparr>ctrl_cycle := 25\<rparr>" "DequeueAccess 0 0"]
  have fired: "DequeueAccess 0 0 \<in> set (due_callbacks 25 (scheduled_ddr_requests c'))"
    by simp
  show ?thesis
    by (rule exI [of _ c'], rule exI [of _ d'], rule exI [of _ info])
      (intro conjI ok s a rej ir d' sc fired)
qed

section \<open>The fill continuation of a read miss\<close>

lemma py_set_get:
  "py_set xs i v = Inr xs' \<Longrightarrow> py_get xs' i = Inr v \<and> length xs' = length xs"
  by (auto simp: py_set_def py_get_def Let_def split: if_splits)

lemma py_get_set_ok:
  "py_get xs i = Inr x \<Longrightarrow> \<exists>xs'. py_set xs i v = Inr xs'"
  by (auto simp: py_set_def py_get_def Let_def split: if_splits)

lemma set_line_result:
  assumes "set_line c idx way line = Inr c'"
  shows "get_line c' idx way = Inr line" and "plru_trees c' = plru_trees c"
proof -
  from assms obtain cache_set cache_set' sets' where s:
      "py_get (sets c) idx = Inr cache_set" "py_set cache_set (int way) line = Inr cache_set'"
      "py_set (sets c) idx cache_set' = Inr sets'" "c' = c\<lparr>sets := sets'\<rparr>"
    by (auto simp: set_line_def and_then_Inr)
  from py_set_get [OF s(3)] py_set_get [OF s(2)] s(4)
  show "get_line c' idx way = Inr line" by (simp add: get_line_def)
  from s(4) show "plru_trees c' = plru_trees c" by simp
qed

lemma touch_plru_result:
  assumes "touch_plru c idx way = Inr c'"
  shows "sets c' = sets c"
    and "\<exists>plru plru'. py_get (plru_trees c) idx = Inr plru
           \<and> update_on_access plru way = Inr plru' \<and> py_get (plru_trees c') idx = Inr plru'"
proof -
  from assms obtain plru plru' trees' where s:
      "py_get (plru_trees c) idx = Inr plru" "update_on_access plru way = Inr plru'"
      "py_set (plru_trees c) idx plru' = Inr trees'" "c' = c\<lparr>plru_trees := trees'\<rparr>"
    by (auto simp: touch_plru_def and_then_Inr)
  from s(4) show "sets c' = sets c" by simp
  from py_set_get [OF s(3)] s show "\<exists>plru plru'. py_get (plru_trees c) idx = Inr plru
      \<and> update_on_access plru way = Inr plru' \<and> py_get (plru_trees c') idx = Inr plru'"
    by auto
qed

lemma install_line_result:
  assumes "install_line m1 ref idx victim_idx tg d = Inr m2" and "ref < length (caches m1)"
  shows "get_line (caches m2 ! ref) idx victim_idx = Inr \<lparr>valid = True, tag = Some tg, dirty = d\<rparr>"
    and "\<exists>plru plru'. py_get (plru_trees (caches m1 ! ref)) idx = Inr plru
           \<and> update_on_access plru victim_idx = Inr plru'
           \<and> py_get (plru_trees (caches m2 ! ref)) idx = Inr plru'"
    and "interconnect m2 = interconnect m1" and "cores m2 = cores m1"
    and "length (caches m2) = length (caches m1)"
    and "\<forall>r. r \<noteq> ref \<longrightarrow> caches m2 ! r = caches m1 ! r"
proof -
  from assms(1) obtain self1 self2 where s:
      "set_line (caches m1 ! ref) idx victim_idx \<lparr>valid = True, tag = Some tg, dirty = d\<rparr> = Inr self1"
      "touch_plru self1 idx victim_idx = Inr self2"
      "m2 = m1\<lparr>caches := (caches m1)[ref := self2]\<rparr>"
    by (auto simp: install_line_def Let_def and_then_Inr)
  have c2: "caches m2 ! ref = self2" using s(3) assms(2) by simp
  from set_line_result [OF s(1)] touch_plru_result [OF s(2)]
  show "get_line (caches m2 ! ref) idx victim_idx = Inr \<lparr>valid = True, tag = Some tg, dirty = d\<rparr>"
    by (simp add: c2 get_line_def)
  from set_line_result(2) [OF s(1)] touch_plru_result(2) [OF s(2)]
  show "\<exists>plru plru'. py_get (plru_trees (caches m1 ! ref)) idx = Inr plru
      \<and> update_on_access plru victim_idx = Inr plru'
      \<and> py_get (plru_trees (caches m2 ! ref)) idx = Inr plru'"
    by (simp add: c2)
  from s(3) show "interconnect m2 = interconnect m1" "cores m2 = cores m1"
    "length (caches m2) = length (caches m1)" "\<forall>r. r \<noteq> ref \<longrightarrow> caches m2 ! r = caches m1 ! r"
    by simp_all
qed

lemma install_line_ok:
  assumes "get_line (caches m1 ! ref) idx v = Inr l0"
    and "py_get (plru_trees (caches m1 ! ref)) idx = Inr plru"
    and "update_on_access plru v = Inr plru'"
  shows "\<exists>m2. install_line m1 ref idx v tg d = Inr m2"
proof -
  from assms(1) obtain cs where cs: "py_get (sets (caches m1 ! ref)) idx = Inr cs"
      "py_get cs (int v) = Inr l0"
    by (auto simp: get_line_def and_then_Inr)
  from py_get_set_ok [OF cs(2)] obtain cs' where cs':
      "py_set cs (int v) \<lparr>valid = True, tag = Some tg, dirty = d\<rparr> = Inr cs'" by blast
  from py_get_set_ok [OF cs(1)] obtain sets' where sets':
      "py_set (sets (caches m1 ! ref)) idx cs' = Inr sets'" by blast
  have sl: "set_line (caches m1 ! ref) idx v \<lparr>valid = True, tag = Some tg, dirty = d\<rparr>
      = Inr ((caches m1 ! ref)\<lparr>sets := sets'\<rparr>)"
    by (simp add: set_line_def cs cs' sets')
  from py_get_set_ok [OF assms(2)] obtain trees' where trees':
      "py_set (plru_trees (caches m1 ! ref)) idx plru' = Inr trees'" by blast
  have "touch_plru ((caches m1 ! ref)\<lparr>sets := sets'\<rparr>) idx v
      = Inr ((caches m1 ! ref)\<lparr>sets := sets', plru_trees := trees'\<rparr>)"
    by (simp add: touch_plru_def assms(2,3) trees')
  with sl show ?thesis by (simp add: install_line_def Let_def)
qed

text \<open>
  C1. In a write-back level attached to a lower cache or to the interconnect, when the
  fill continuation \<^verbatim>\<open>lower_cb\<close> runs and the victim line is valid and dirty, its effect
  is, in this order: the write of the address \<open>((old_tag \<times> num_sets) + index) \<times> line_size\<close>
  rebuilt from the tag the victim holds at that moment, through \<^verbatim>\<open>write\<close> of the lower
  cache or as a write request without callback pushed to the interconnect; then the
  installation of the missing tag in the victim line with \<^verbatim>\<open>valid = True\<close> and
  \<^verbatim>\<open>dirty = False\<close> and the PLRU update with the victim way; then one invocation of the
  caller's callback. For a level attached to the interconnect whose PLRU update returns,
  the continuation reaches the callback.
\<close>

theorem fill_continuation_writes_victim_back_first:
  fixes m ref old_tag idx
  defines "self \<equiv> caches m ! ref"
  defines "victim_addr \<equiv> ((old_tag * num_sets self) + idx) * line_size self"
  assumes "write_back self"
    and "get_line self idx victim_idx = Inr victim_line"
    and "valid victim_line" and "dirty victim_line" and "tag victim_line = Some old_tag"
    and "lower self \<noteq> None \<or> memory self"
  shows "invoke depth m (LowerCb ref idx tg victim_idx cb) =
     and_then
       (case lower self of
          Some l \<Rightarrow> CacheLevel_write depth m l victim_addr
        | None \<Rightarrow> Inr (m\<lparr>interconnect := Interconnect_request (interconnect m)
                          \<lparr>core_id = owner_core_id self, time = ic_cycle (interconnect m),
                           req_type = Write, addr = victim_addr, callback = None,
                           completion_time = - 1\<rparr>\<rparr>))
       (\<lambda>m1. and_then (install_line m1 ref idx victim_idx tg False)
          (\<lambda>m2. invoke depth m2 cb))
     \<and> (\<forall>m1 m2. ref < length (caches m1)
            \<and> install_line m1 ref idx victim_idx tg False = Inr m2 \<longrightarrow>
          get_line (caches m2 ! ref) idx victim_idx
            = Inr \<lparr>valid = True, tag = Some tg, dirty = False\<rparr>
          \<and> (\<exists>plru plru'. py_get (plru_trees (caches m1 ! ref)) idx = Inr plru
                \<and> update_on_access plru victim_idx = Inr plru'
                \<and> py_get (plru_trees (caches m2 ! ref)) idx = Inr plru')
          \<and> interconnect m2 = interconnect m1 \<and> cores m2 = cores m1)
     \<and> (lower self = None \<and> ref < length (caches m)
          \<and> (\<exists>plru plru'. py_get (plru_trees self) idx = Inr plru
                \<and> update_on_access plru victim_idx = Inr plru') \<longrightarrow>
          (\<exists>m2. invoke depth m (LowerCb ref idx tg victim_idx cb) = invoke depth m2 cb
             \<and> interconnect m2 = Interconnect_request (interconnect m)
                   \<lparr>core_id = owner_core_id self, time = ic_cycle (interconnect m),
                    req_type = Write, addr = victim_addr, callback = None,
                    completion_time = - 1\<rparr>
             \<and> cores m2 = cores m
             \<and> get_line (caches m2 ! ref) idx victim_idx
                 = Inr \<lparr>valid = True, tag = Some tg, dirty = False\<rparr>))"
proof -
  have wb: "write_back_victim (CacheLevel_write depth) m ref idx victim_idx =
      write_below (CacheLevel_write depth) m ref victim_addr"
    using assms(3-7)
    by (simp add: write_back_victim_def Let_def victim_addr_of_def self_def victim_addr_def)
  have below: "write_below (CacheLevel_write depth) m ref victim_addr =
      (case lower self of
          Some l \<Rightarrow> CacheLevel_write depth m l victim_addr
        | None \<Rightarrow> Inr (m\<lparr>interconnect := Interconnect_request (interconnect m)
                          \<lparr>core_id = owner_core_id self, time = ic_cycle (interconnect m),
                           req_type = Write, addr = victim_addr, callback = None,
                           completion_time = - 1\<rparr>\<rparr>))"
    using assms(8)
    by (auto simp: write_below_def Let_def self_def MemoryRequest_init_def split: option.splits)
  have eq: "invoke depth m (LowerCb ref idx tg victim_idx cb) =
     and_then
       (case lower self of
          Some l \<Rightarrow> CacheLevel_write depth m l victim_addr
        | None \<Rightarrow> Inr (m\<lparr>interconnect := Interconnect_request (interconnect m)
                          \<lparr>core_id = owner_core_id self, time = ic_cycle (interconnect m),
                           req_type = Write, addr = victim_addr, callback = None,
                           completion_time = - 1\<rparr>\<rparr>))
       (\<lambda>m1. and_then (install_line m1 ref idx victim_idx tg False)
          (\<lambda>m2. invoke depth m2 cb))"
    by (simp only: invoke.simps wb below)
  have post: "\<forall>m1 m2. ref < length (caches m1)
            \<and> install_line m1 ref idx victim_idx tg False = Inr m2 \<longrightarrow>
          get_line (caches m2 ! ref) idx victim_idx
            = Inr \<lparr>valid = True, tag = Some tg, dirty = False\<rparr>
          \<and> (\<exists>plru plru'. py_get (plru_trees (caches m1 ! ref)) idx = Inr plru
                \<and> update_on_access plru victim_idx = Inr plru'
                \<and> py_get (plru_trees (caches m2 ! ref)) idx = Inr plru')
          \<and> interconnect m2 = interconnect m1 \<and> cores m2 = cores m1"
  proof (intro allI impI)
    fix m1 m2 :: machine
    assume "ref < length (caches m1) \<and> install_line m1 ref idx victim_idx tg False = Inr m2"
    then have i: "install_line m1 ref idx victim_idx tg False = Inr m2" "ref < length (caches m1)"
      by simp_all
    from install_line_result(1-4) [OF i]
    show "get_line (caches m2 ! ref) idx victim_idx
          = Inr \<lparr>valid = True, tag = Some tg, dirty = False\<rparr>
        \<and> (\<exists>plru plru'. py_get (plru_trees (caches m1 ! ref)) idx = Inr plru
              \<and> update_on_access plru victim_idx = Inr plru'
              \<and> py_get (plru_trees (caches m2 ! ref)) idx = Inr plru')
        \<and> interconnect m2 = interconnect m1 \<and> cores m2 = cores m1"
      by (intro conjI)
  qed
  have succ: "lower self = None \<and> ref < length (caches m)
          \<and> (\<exists>plru plru'. py_get (plru_trees self) idx = Inr plru
                \<and> update_on_access plru victim_idx = Inr plru') \<longrightarrow>
          (\<exists>m2. invoke depth m (LowerCb ref idx tg victim_idx cb) = invoke depth m2 cb
             \<and> interconnect m2 = Interconnect_request (interconnect m)
                   \<lparr>core_id = owner_core_id self, time = ic_cycle (interconnect m),
                    req_type = Write, addr = victim_addr, callback = None,
                    completion_time = - 1\<rparr>
             \<and> cores m2 = cores m
             \<and> get_line (caches m2 ! ref) idx victim_idx
                 = Inr \<lparr>valid = True, tag = Some tg, dirty = False\<rparr>)"
  proof
    assume h: "lower self = None \<and> ref < length (caches m)
        \<and> (\<exists>plru plru'. py_get (plru_trees self) idx = Inr plru
              \<and> update_on_access plru victim_idx = Inr plru')"
    then obtain plru plru' where p: "py_get (plru_trees self) idx = Inr plru"
        "update_on_access plru victim_idx = Inr plru'" by blast
    define m1 where "m1 = m\<lparr>interconnect := Interconnect_request (interconnect m)
        \<lparr>core_id = owner_core_id self, time = ic_cycle (interconnect m),
         req_type = Write, addr = victim_addr, callback = None, completion_time = - 1\<rparr>\<rparr>"
    have c1: "caches m1 = caches m" "cores m1 = cores m" by (simp_all add: m1_def)
    from install_line_ok [of m1 ref idx victim_idx victim_line plru plru' tg False]
    obtain m2 where m2: "install_line m1 ref idx victim_idx tg False = Inr m2"
      using assms(4) p by (auto simp: c1 self_def)
    have rl: "ref < length (caches m1)" using h by (simp add: c1)
    have "invoke depth m (LowerCb ref idx tg victim_idx cb) = invoke depth m2 cb"
      unfolding eq using h m2 by (simp add: m1_def)
    moreover have "interconnect m2 = Interconnect_request (interconnect m)
        \<lparr>core_id = owner_core_id self, time = ic_cycle (interconnect m),
         req_type = Write, addr = victim_addr, callback = None, completion_time = - 1\<rparr>"
      using install_line_result(3) [OF m2 rl] by (simp add: m1_def)
    moreover have "cores m2 = cores m"
      using install_line_result(4) [OF m2 rl] by (simp add: c1)
    moreover note install_line_result(1) [OF m2 rl]
    ultimately show "\<exists>m2. invoke depth m (LowerCb ref idx tg victim_idx cb) = invoke depth m2 cb
        \<and> interconnect m2 = Interconnect_request (interconnect m)
              \<lparr>core_id = owner_core_id self, time = ic_cycle (interconnect m),
               req_type = Write, addr = victim_addr, callback = None, completion_time = - 1\<rparr>
        \<and> cores m2 = cores m
        \<and> get_line (caches m2 ! ref) idx victim_idx
            = Inr \<lparr>valid = True, tag = Some tg, dirty = False\<rparr>"
      by blast
  qed
  from eq post succ show ?thesis by (intro conjI)
qed

text \<open>
  The continuation of the private level of the example: the victim with tag 3 is written
  to the shared level at address 12 before the line takes the tag 7.
\<close>

lemma example_l1_fill:
  "map_sum id (map sets \<circ> caches)
     (invoke 2 example_machine (LowerCb 0 0 7 0 (DequeueAccess 0 28)))
   = Inr [[[example_line True (Some 7) False, example_line False None False]],
          [[example_line True (Some 5) True, example_line False None False],
           [example_line True (Some 1) True, example_line False None False]]]"
  "map_sum id (map pending_accesses \<circ> cores)
     (invoke 2 example_machine (LowerCb 0 0 7 0 (DequeueAccess 0 28))) = Inr [[]]"
  "map_sum id (map (map bits \<circ> plru_trees) \<circ> caches)
     (invoke 2 example_machine (LowerCb 0 0 7 0 (DequeueAccess 0 28)))
   = Inr [[[1]], [[0], [1]]]"
  by code_simp+

theorem fill_continuation_writes_victim_back_first_witness:
  "write_back (caches example_machine ! 1)
   \<and> get_line (caches example_machine ! 1) 0 0 = Inr (example_line True (Some 5) True)
   \<and> valid (example_line True (Some 5) True) \<and> dirty (example_line True (Some 5) True)
   \<and> tag (example_line True (Some 5) True) = Some 5
   \<and> memory (caches example_machine ! 1)
   \<and> map_sum id (map (addr \<circ> snd) \<circ> ic_queue \<circ> interconnect)
        (invoke 2 example_machine (LowerCb 1 0 9 0 (DequeueAccess 0 28))) = Inr [40]
   \<and> map_sum id (map (callback \<circ> snd) \<circ> ic_queue \<circ> interconnect)
        (invoke 2 example_machine (LowerCb 1 0 9 0 (DequeueAccess 0 28))) = Inr [None]
   \<and> map_sum id (map sets \<circ> caches)
        (invoke 2 example_machine (LowerCb 1 0 9 0 (DequeueAccess 0 28)))
       = Inr [[[example_line True (Some 3) True, example_line False None False]],
              [[example_line True (Some 9) False, example_line False None False],
               [example_line False None False, example_line False None False]]]
   \<and> map_sum id (map pending_accesses \<circ> cores)
        (invoke 2 example_machine (LowerCb 1 0 9 0 (DequeueAccess 0 28))) = Inr [[]]"
proof -
  have h: "write_back (caches example_machine ! 1)"
      "get_line (caches example_machine ! 1) 0 0 = Inr (example_line True (Some 5) True)"
      "valid (example_line True (Some 5) True)" "dirty (example_line True (Some 5) True)"
      "tag (example_line True (Some 5) True) = Some 5"
      "lower (caches example_machine ! 1) \<noteq> None \<or> memory (caches example_machine ! 1)"
    by code_simp+
  have mem: "memory (caches example_machine ! 1)" by code_simp
  note th = fill_continuation_writes_victim_back_first [OF h, THEN conjunct1,
      of 2 9 "DequeueAccess 0 28"]
  have e: "map_sum id (map (addr \<circ> snd) \<circ> ic_queue \<circ> interconnect)
        (invoke 2 example_machine (LowerCb 1 0 9 0 (DequeueAccess 0 28))) = Inr [40]"
      "map_sum id (map (callback \<circ> snd) \<circ> ic_queue \<circ> interconnect)
        (invoke 2 example_machine (LowerCb 1 0 9 0 (DequeueAccess 0 28))) = Inr [None]"
      "map_sum id (map sets \<circ> caches)
        (invoke 2 example_machine (LowerCb 1 0 9 0 (DequeueAccess 0 28)))
       = Inr [[[example_line True (Some 3) True, example_line False None False]],
              [[example_line True (Some 9) False, example_line False None False],
               [example_line False None False, example_line False None False]]]"
      "map_sum id (map pending_accesses \<circ> cores)
        (invoke 2 example_machine (LowerCb 1 0 9 0 (DequeueAccess 0 28))) = Inr [[]]"
    unfolding th by code_simp+
  from h(1-5) mem e show ?thesis by (intro conjI)
qed

end
